theory Spec2Isabelle
  imports Main "HOL-Library.Word" "HOL-Library.Monad_Syntax"
begin

section \<open>Byte memory and C strings\<close>

text \<open>
  The parser works on \<^verbatim>\<open>char *\<close> buffers: it copies the caller's buffer into a block
  of its own and lets \<^verbatim>\<open>strtok\<close> overwrite delimiters of that block with NUL bytes.
  Memory is a partial map from block addresses to the bytes of the block; a pointer is a
  block address with an offset into it. Every read or write outside an allocated block
  is undefined behaviour of the C program and is the value \<open>None\<close> of the model.
\<close>

type_synonym addr = nat
type_synonym memory = "addr \<Rightarrow> char list option"
type_synonym ptr = "addr \<times> nat"

definition NUL :: char where
  "NUL = CHR 0x00"

definition CR :: char where
  "CR = CHR 0x0D"

definition LF :: char where
  "LF = CHR 0x0A"

text \<open>The string a \<^verbatim>\<open>char *\<close> points to: the bytes from the pointer up to the first NUL
  of its block. A block with no NUL after the pointer has no string (the read would run
  past the block).\<close>

definition cstr :: "memory \<Rightarrow> ptr \<Rightarrow> string option" where
  "cstr m p =
     (case m (fst p) of
        None \<Rightarrow> None
      | Some bs \<Rightarrow>
          if NUL \<in> set (drop (snd p) bs)
          then Some (takeWhile (\<lambda>c. c \<noteq> NUL) (drop (snd p) bs))
          else None)"

text \<open>\<^verbatim>\<open>*p = c\<close>.\<close>

definition poke :: "memory \<Rightarrow> ptr \<Rightarrow> char \<Rightarrow> memory option" where
  "poke m p c =
     (case m (fst p) of
        None \<Rightarrow> None
      | Some bs \<Rightarrow>
          if snd p < length bs then Some (m(fst p \<mapsto> bs[snd p := c])) else None)"

text \<open>The \<open>n\<close> bytes that \<^verbatim>\<open>memcpy(dst, p, n)\<close> reads at \<open>p\<close>.\<close>

definition peek_n :: "memory \<Rightarrow> ptr \<Rightarrow> nat \<Rightarrow> char list option" where
  "peek_n m p n =
     (case m (fst p) of
        None \<Rightarrow> None
      | Some bs \<Rightarrow>
          if snd p + n \<le> length bs then Some (take n (drop (snd p) bs)) else None)"

text \<open>\<^verbatim>\<open>free(p)\<close> of a whole block.\<close>

definition free_block :: "memory \<Rightarrow> addr \<Rightarrow> memory" where
  "free_block m a = m(a := None)"

text \<open>
  \<^verbatim>\<open>strtok(s, delim)\<close> of the C library (ISO C 7.24.5.8), with its hidden save
  pointer made a component of the state. The scan starts at \<open>s\<close>, or at the save pointer
  when \<open>s\<close> is NULL; it skips leading delimiters (\<^verbatim>\<open>strspn\<close>); at the end of the string
  it returns NULL; otherwise the token runs to the next delimiter (\<^verbatim>\<open>strcspn\<close>), which
  is overwritten with NUL, and the save pointer moves behind it.
\<close>

definition strtok ::
  "ptr option \<Rightarrow> string \<Rightarrow> memory \<times> ptr \<Rightarrow> (ptr option \<times> memory \<times> ptr) option" where
  "strtok s delim st =
     (let m = fst st;
          p = (case s of None \<Rightarrow> snd st | Some q \<Rightarrow> q);
          a = fst p;
          i = snd p
      in do {
        str \<leftarrow> cstr m p;
        let k = length (takeWhile (\<lambda>c. c \<in> set delim) str);
        let tok = takeWhile (\<lambda>c. c \<notin> set delim) (drop k str);
        let e = i + k + length tok;
        if drop k str = [] then Some (None, m, (a, i + k))
        else if e = i + length str then Some (Some (a, i + k), m, (a, e))
        else do {
          m' \<leftarrow> poke m (a, e) NUL;
          Some (Some (a, i + k), m', (a, e + 1))
        }
      })"

text \<open>\<^verbatim>\<open>strstr(hay, needle)\<close> and \<^verbatim>\<open>strchr(s, c)\<close> on a string value: the offset of
  the first match, \<open>None\<close> for NULL.\<close>

fun strstr :: "string \<Rightarrow> string \<Rightarrow> nat option" where
  "strstr [] needle = (if needle = [] then Some 0 else None)"
| "strstr (c # cs) needle =
     (if take (length needle) (c # cs) = needle then Some 0
      else map_option Suc (strstr cs needle))"

definition strchr :: "string \<Rightarrow> char \<Rightarrow> nat option" where
  "strchr s c = (if c \<in> set s then Some (length (takeWhile (\<lambda>x. x \<noteq> c) s)) else None)"

section \<open>The request parser (proxy\_parse.c)\<close>

text \<open>
  \<^verbatim>\<open>struct ParsedRequest\<close> is declared in proxy\_parse.h, which is not among the
  sources; its string fields are the ones \<^verbatim>\<open>ParsedRequest_destroy\<close> frees. Each
  field is NULL (\<open>None\<close>) or owns a string made by \<^verbatim>\<open>strdup\<close>; the model holds the
  owned strings by value. \<^verbatim>\<open>strdup\<close> is taken to succeed.
\<close>

record ParsedRequest =
  method_r :: "string option"
  protocol :: "string option"
  host :: "string option"
  port :: "string option"
  path :: "string option"
  version :: "string option"
  buf :: "string option"

text \<open>\<^verbatim>\<open>ParsedRequest_create\<close>: a zeroed structure.\<close>

definition ParsedRequest_create :: ParsedRequest where
  "ParsedRequest_create =
     \<lparr>method_r = None, protocol = None, host = None, port = None, path = None,
      version = None, buf = None\<rparr>"

text \<open>The CONNECT branch (lines 69 to 76): \<^verbatim>\<open>strtok(uri, ":")\<close>, then the rest of the
  URI as port; each field is set only when its token is not NULL; the result is 0.\<close>

definition parse_connect ::
  "ParsedRequest \<Rightarrow> ptr \<Rightarrow> memory \<times> ptr \<Rightarrow> (ParsedRequest \<times> memory \<times> ptr) option" where
  "parse_connect pr uri st =
     do {
       (host_p, m1, s1) \<leftarrow> strtok (Some uri) '':'' st;
       (port_p, m2, s2) \<leftarrow> strtok None [] (m1, s1);
       pr1 \<leftarrow> (case host_p of
                 None \<Rightarrow> Some pr
               | Some hp \<Rightarrow> do { h \<leftarrow> cstr m2 hp; Some (pr\<lparr>host := Some h\<rparr>) });
       pr2 \<leftarrow> (case port_p of
                 None \<Rightarrow> Some pr1
               | Some pp \<Rightarrow> do { p \<leftarrow> cstr m2 pp; Some (pr1\<lparr>port := Some p\<rparr>) });
       Some (pr2, m2, s2)
     }"

text \<open>The GET branch (lines 83 to 115) on the private copy \<^verbatim>\<open>uri_copy\<close> of the URI:
  skip a scheme, cut host from path at the first slash, cut a port off the host at its
  first colon, and fail on an empty host.\<close>

definition parse_get :: "ParsedRequest \<Rightarrow> string \<Rightarrow> int \<times> ParsedRequest" where
  "parse_get pr uri_copy =
     (let uri_ptr = (case strstr uri_copy ''://'' of
                       None \<Rightarrow> uri_copy
                     | Some i \<Rightarrow> drop (i + 3) uri_copy);
          pr1 = (case strchr uri_ptr CHR ''/'' of
                   None \<Rightarrow> pr\<lparr>host := Some uri_ptr, path := Some ''/''\<rparr>
                 | Some j \<Rightarrow> pr\<lparr>host := Some (take j uri_ptr), path := Some (drop j uri_ptr)\<rparr>);
          h = (case host pr1 of None \<Rightarrow> [] | Some x \<Rightarrow> x);
          pr2 = (case strchr h CHR '':'' of
                   None \<Rightarrow> pr1
                 | Some k \<Rightarrow> pr1\<lparr>host := Some (take k h), port := Some (drop (k + 1) h)\<rparr>)
      in if host pr2 = Some [] then (- 1, pr2) else (0, pr2))"

text \<open>
  \<^verbatim>\<open>ParsedRequest_parse(parse, buf, buflen)\<close>. \<open>temp_alloc\<close> is what
  \<^verbatim>\<open>malloc(buflen + 1)\<close> returns: NULL or the address of a new block. The result is the
  return code, the structure and the memory afterwards.
\<close>

definition ParsedRequest_parse ::
  "ParsedRequest option \<Rightarrow> ptr option \<Rightarrow> int \<Rightarrow> addr option \<Rightarrow> memory \<times> ptr \<Rightarrow>
     (int \<times> ParsedRequest option \<times> memory \<times> ptr) option" where
  "ParsedRequest_parse parse buf_p buflen temp_alloc st =
     (case (parse, buf_p) of
        (Some pr, Some b) \<Rightarrow>
          if buflen < 4 then Some (- 1, parse, st)
          else if 2147483647 \<le> buflen then None
          else
            (case temp_alloc of
               None \<Rightarrow> Some (- 1, parse, st)
             | Some temp_buf \<Rightarrow>
                 do {
                   bytes \<leftarrow> peek_n (fst st) b (nat buflen);
                   let m0 = (fst st)(temp_buf \<mapsto> bytes @ [NUL]);
                   (request_line, m1, s1) \<leftarrow> strtok (Some (temp_buf, 0)) [CR, LF] (m0, snd st);
                   case request_line of
                     None \<Rightarrow> Some (- 1, parse, free_block m1 temp_buf, s1)
                   | Some rl \<Rightarrow>
                       do {
                         line \<leftarrow> cstr m1 rl;
                         let pr1 = pr\<lparr>buf := Some line\<rparr>;
                         (method_p, m2, s2) \<leftarrow> strtok (Some rl) '' '' (m1, s1);
                         (uri_p, m3, s3) \<leftarrow> strtok None '' '' (m2, s2);
                         (version_p, m4, s4) \<leftarrow> strtok None [] (m3, s3);
                         case (method_p, uri_p, version_p) of
                           (Some mp, Some up, Some vp) \<Rightarrow>
                             do {
                               ms \<leftarrow> cstr m4 mp;
                               vs \<leftarrow> cstr m4 vp;
                               let pr2 = pr1\<lparr>method_r := Some ms, version := Some vs\<rparr>;
                               if ms = ''CONNECT'' then
                                 do {
                                   (pr3, m5, s5) \<leftarrow> parse_connect pr2 up (m4, s4);
                                   Some (0, Some pr3, free_block m5 temp_buf, s5)
                                 }
                               else if ms \<noteq> ''GET'' then
                                 Some (- 1, Some pr2, free_block m4 temp_buf, s4)
                               else
                                 do {
                                   uri_copy \<leftarrow> cstr m4 up;
                                   let (rc, pr3) = parse_get pr2 uri_copy;
                                   Some (rc, Some pr3, free_block m4 temp_buf, s4)
                                 }
                             }
                         | _ \<Rightarrow> Some (- 1, Some pr1, free_block m4 temp_buf, s4)
                       }
                 })
      | _ \<Rightarrow> Some (- 1, parse, st))"

text \<open>
  \<^verbatim>\<open>handle_http_request\<close>, lines 380 to 383: the request sent to the origin,
  \<^verbatim>\<open>snprintf\<close> into \<^verbatim>\<open>new_request[MAX_REQUEST_LEN]\<close>, which keeps at most
  \<^verbatim>\<open>MAX_REQUEST_LEN - 1\<close> characters. A NULL argument of \<^verbatim>\<open>%s\<close> is undefined.
\<close>

definition MAX_REQUEST_LEN :: nat where
  "MAX_REQUEST_LEN = 8192"

definition new_request :: "ParsedRequest \<Rightarrow> string option" where
  "new_request req =
     do {
       p \<leftarrow> path req;
       v \<leftarrow> version req;
       h \<leftarrow> host req;
       Some (take (MAX_REQUEST_LEN - 1)
              (''GET '' @ p @ '' '' @ v @ [CR, LF] @ ''Host: '' @ h @ [CR, LF]
                 @ ''Connection: close'' @ [CR, LF, CR, LF]))
     }"

section \<open>The task queue (proxy\_server.c, lines 200 to 232)\<close>

text \<open>
  Every queue operation runs under the queue's mutex, so an execution of the acceptor and
  the workers is a sequence of whole operations. An operation that would wait on a
  condition variable (\<^verbatim>\<open>pthread_cond_wait\<close>) cannot be the next one of the sequence: its
  outcome is \<open>Waits\<close>. \<open>UB\<close> is undefined behaviour of the C program (an access
  outside the array, a remainder by zero), \<open>Ret\<close> the normal return.
\<close>

datatype 'a step = Waits | UB | Ret 'a

text \<open>C's \<^verbatim>\<open>%\<close> on \<^verbatim>\<open>int\<close>: the remainder of the division that truncates towards
  zero; undefined for a zero divisor.\<close>

definition c_rem :: "int \<Rightarrow> int \<Rightarrow> int option" where
  "c_rem a b = (if b = 0 then None else Some (sgn a * (\<bar>a\<bar> mod \<bar>b\<bar>)))"

text \<open>\<^verbatim>\<open>TaskQueue\<close>. \<open>sockets\<close> is the array \<^verbatim>\<open>malloc\<close> returned, \<open>None\<close> for NULL. The
  \<^verbatim>\<open>int\<close> fields are unbounded integers here; the invariant proved below keeps them
  between 0 and the capacity, so no C addition overflows.\<close>

record TaskQueue =
  sockets :: "int list option"
  q_capacity :: int
  q_size :: int
  q_head :: int
  q_tail :: int

text \<open>\<^verbatim>\<open>init_task_queue(capacity)\<close>; \<open>block\<close> is the result of the \<^verbatim>\<open>malloc\<close>.\<close>

definition init_task_queue :: "int \<Rightarrow> int list option \<Rightarrow> TaskQueue" where
  "init_task_queue capacity block =
     \<lparr>sockets = block, q_capacity = capacity, q_size = 0, q_head = 0, q_tail = 0\<rparr>"

definition enqueue_task :: "int \<Rightarrow> TaskQueue \<Rightarrow> TaskQueue step" where
  "enqueue_task client_socket q =
     (if q_size q = q_capacity q then Waits
      else
        case sockets q of
          None \<Rightarrow> UB
        | Some arr \<Rightarrow>
            if q_tail q < 0 \<or> int (length arr) \<le> q_tail q then UB
            else
              case c_rem (q_tail q + 1) (q_capacity q) of
                None \<Rightarrow> UB
              | Some t \<Rightarrow>
                  Ret (q\<lparr>sockets := Some (arr[nat (q_tail q) := client_socket]),
                         q_tail := t, q_size := q_size q + 1\<rparr>))"

text \<open>\<^verbatim>\<open>dequeue_task()\<close>; \<open>server_running\<close> is the value of the flag when the operation
  runs. With an empty queue it waits while the server runs and returns -1 afterwards.\<close>

definition dequeue_task :: "bool \<Rightarrow> TaskQueue \<Rightarrow> (int \<times> TaskQueue) step" where
  "dequeue_task server_running q =
     (if q_size q = 0 \<and> server_running then Waits
      else if \<not> server_running \<and> q_size q = 0 then Ret (- 1, q)
      else
        case sockets q of
          None \<Rightarrow> UB
        | Some arr \<Rightarrow>
            if q_head q < 0 \<or> int (length arr) \<le> q_head q then UB
            else
              case c_rem (q_head q + 1) (q_capacity q) of
                None \<Rightarrow> UB
              | Some h \<Rightarrow>
                  Ret (arr ! nat (q_head q), q\<lparr>q_head := h, q_size := q_size q - 1\<rparr>))"

section \<open>The LRU cache (proxy\_server.c, lines 114 to 198)\<close>

text \<open>
  The cache is a pointer structure: nodes allocated with \<^verbatim>\<open>malloc\<close>, linked into a
  doubly-linked recency list and into singly-linked hash chains, and released with
  \<^verbatim>\<open>free\<close>. The model keeps the nodes in a store, a partial map from addresses to node
  contents; \<^verbatim>\<open>free\<close> removes the address from the store. A C function that dereferences
  NULL or an address outside the store, indexes the table out of range or takes a
  remainder by zero has undefined behaviour: its outcome is \<open>Fault\<close>. A function
  with a loop is a partial function into \<open>option\<close>, where \<open>None\<close> says that the loop does
  not terminate; so a call ends in \<open>Some (Ok r)\<close>, \<open>Some Fault\<close> or \<open>None\<close>.
\<close>

datatype 'a outcome = Fault | Ok 'a

text \<open>\<^verbatim>\<open>size_t\<close> and \<^verbatim>\<open>unsigned long\<close> are 64-bit words (x86-64 Linux), with their
  wrap-around.\<close>

type_synonym size_t = "64 word"

record CacheNode =
  key :: "string option"
  data :: "char list"
  data_size :: size_t
  prev_node :: "addr option"
  next_node :: "addr option"
  h_next :: "addr option"

record LRUCache =
  capacity :: size_t
  size_c :: size_t
  table_size :: int
  table :: "addr option list"
  head :: "addr option"
  tail :: "addr option"

text \<open>One line written by \<^verbatim>\<open>log_message\<close>: the level, the format string and the
  \<^verbatim>\<open>%zu\<close> or \<^verbatim>\<open>%s\<close> argument when the format has one.\<close>

datatype log_line = Log string string | LogSize string string size_t | LogStr string string string

text \<open>The global state the cache functions work on: the structure \<^verbatim>\<open>*cache\<close>, the
  store of nodes, the log, and the configured \<^verbatim>\<open>g_max_element_size\<close>.\<close>

record pstate =
  cache :: LRUCache
  nodes :: "addr \<Rightarrow> CacheNode option"
  log_lines :: "log_line list"
  g_max_element_size :: size_t

definition log_message :: "log_line \<Rightarrow> pstate \<Rightarrow> pstate" where
  "log_message l s = s\<lparr>log_lines := log_lines s @ [l]\<rparr>"

text \<open>\<^verbatim>\<open>hash\<close> (djb2). \<^verbatim>\<open>int c = *str++\<close> reads a \<^verbatim>\<open>char\<close>, which is signed on
  x86-64: a byte from 128 on is a negative \<^verbatim>\<open>int\<close>, and its conversion to
  \<^verbatim>\<open>unsigned long\<close> wraps.\<close>

definition char_to_ulong :: "char \<Rightarrow> size_t" where
  "char_to_ulong c =
     (if (of_char c :: nat) < 128 then of_nat (of_char c) else of_nat (of_char c) - 256)"

fun hash_from :: "size_t \<Rightarrow> string \<Rightarrow> size_t" where
  "hash_from h [] = h"
| "hash_from h (c # cs) = hash_from ((push_bit 5 h + h) + char_to_ulong c) cs"

definition hash :: "string \<Rightarrow> size_t" where
  "hash str = hash_from 5381 str"

text \<open>\<^verbatim>\<open>hash(key) % cache->table_size\<close>: the \<^verbatim>\<open>int\<close> is converted to
  \<^verbatim>\<open>unsigned long\<close>; a zero divisor is undefined.\<close>

definition bucket_of :: "pstate \<Rightarrow> string \<Rightarrow> nat outcome" where
  "bucket_of s k =
     (let d = (word_of_int (table_size (cache s)) :: size_t)
      in if d = 0 then Fault else Ok (unat (hash k mod d)))"

text \<open>Reading and writing through a node pointer, and the table slot \<^verbatim>\<open>cache->table[h]\<close>.\<close>

definition load :: "pstate \<Rightarrow> addr \<Rightarrow> CacheNode outcome" where
  "load s a = (case nodes s a of None \<Rightarrow> Fault | Some n \<Rightarrow> Ok n)"

definition put_node :: "addr \<Rightarrow> CacheNode \<Rightarrow> pstate \<Rightarrow> pstate" where
  "put_node a n s = s\<lparr>nodes := (nodes s)(a \<mapsto> n)\<rparr>"

definition slot :: "pstate \<Rightarrow> nat \<Rightarrow> addr option outcome" where
  "slot s h = (if h < length (table (cache s)) then Ok (table (cache s) ! h) else Fault)"

definition set_slot :: "nat \<Rightarrow> addr option \<Rightarrow> pstate \<Rightarrow> pstate" where
  "set_slot h p s = s\<lparr>cache := (cache s)\<lparr>table := (table (cache s))[h := p]\<rparr>\<rparr>"

text \<open>Sequencing of outcomes: the first fault ends the function.\<close>

definition seq :: "'a outcome \<Rightarrow> ('a \<Rightarrow> 'b outcome) \<Rightarrow> 'b outcome" where
  "seq x f = (case x of Fault \<Rightarrow> Fault | Ok y \<Rightarrow> f y)"

text \<open>\<^verbatim>\<open>detach_node(c, node)\<close>, its two statements in order.\<close>

definition detach_node :: "addr \<Rightarrow> pstate \<Rightarrow> pstate outcome" where
  "detach_node node s =
     seq (load s node) (\<lambda>n.
     seq (case prev_node n of
            Some p \<Rightarrow> seq (load s p) (\<lambda>pn. Ok (put_node p (pn\<lparr>next_node := next_node n\<rparr>) s))
          | None \<Rightarrow> Ok (s\<lparr>cache := (cache s)\<lparr>head := next_node n\<rparr>\<rparr>)) (\<lambda>s1.
     seq (load s1 node) (\<lambda>n1.
     case next_node n1 of
       Some x \<Rightarrow> seq (load s1 x) (\<lambda>xn. Ok (put_node x (xn\<lparr>prev_node := prev_node n1\<rparr>) s1))
     | None \<Rightarrow> Ok (s1\<lparr>cache := (cache s1)\<lparr>tail := prev_node n1\<rparr>\<rparr>))))"

text \<open>\<^verbatim>\<open>attach_to_front(c, node)\<close>.\<close>

definition attach_to_front :: "addr \<Rightarrow> pstate \<Rightarrow> pstate outcome" where
  "attach_to_front node s =
     seq (load s node) (\<lambda>n.
     let s1 = put_node node (n\<lparr>next_node := head (cache s), prev_node := None\<rparr>) s
     in seq (case head (cache s1) of
               Some h \<Rightarrow> seq (load s1 h) (\<lambda>hn. Ok (put_node h (hn\<lparr>prev_node := Some node\<rparr>) s1))
             | None \<Rightarrow> Ok s1) (\<lambda>s2.
        let s3 = s2\<lparr>cache := (cache s2)\<lparr>head := Some node\<rparr>\<rparr>
        in Ok (if tail (cache s3) = None
               then s3\<lparr>cache := (cache s3)\<lparr>tail := Some node\<rparr>\<rparr>
               else s3)))"

text \<open>\<^verbatim>\<open>create_cache(capacity, table_size)\<close>; the two allocations at start-up are taken
  to succeed, and \<^verbatim>\<open>calloc\<close> returns a table of NULL pointers. The log starts empty.\<close>

definition create_cache :: "size_t \<Rightarrow> int \<Rightarrow> size_t \<Rightarrow> pstate" where
  "create_cache cap tsize max_element =
     \<lparr>cache = \<lparr>capacity = cap, size_c = 0, table_size = tsize,
               table = replicate (nat tsize) None, head = None, tail = None\<rparr>,
      nodes = Map.empty, log_lines = [], g_max_element_size = max_element\<rparr>"

text \<open>The search loop of \<^verbatim>\<open>get_from_cache\<close> (lines 151 to 159) from the pointer
  \<open>node\<close> on: the node whose key equals \<open>k\<close>, or NULL at the end of the chain.\<close>

partial_function (option) find_node :: "string \<Rightarrow> addr option \<Rightarrow> pstate \<Rightarrow> addr option outcome option" where
  "find_node k node s =
     (case node of
        None \<Rightarrow> Some (Ok None)
      | Some a \<Rightarrow>
          (case nodes s a of
             None \<Rightarrow> Some Fault
           | Some n \<Rightarrow>
               (case key n of
                  None \<Rightarrow> Some Fault
                | Some nk \<Rightarrow> if nk = k then Some (Ok (Some a)) else find_node k (h_next n) s)))"

declare find_node.simps [code]

text \<open>\<^verbatim>\<open>get_from_cache(key)\<close>: the result is the node pointer the C function returns,
  and the state after it.\<close>

definition get_from_cache :: "string \<Rightarrow> pstate \<Rightarrow> (addr option \<times> pstate) outcome option" where
  "get_from_cache k s =
     (case seq (bucket_of s k) (slot s) of
        Fault \<Rightarrow> Some Fault
      | Ok first \<Rightarrow>
          (case find_node k first s of
             None \<Rightarrow> None
           | Some Fault \<Rightarrow> Some Fault
           | Some (Ok None) \<Rightarrow>
               Some (Ok (None, log_message (Log ''INFO'' ''Cache MISS for request key.'') s))
           | Some (Ok (Some node)) \<Rightarrow>
               Some (seq (detach_node node s) (\<lambda>s1.
                     seq (attach_to_front node s1) (\<lambda>s2.
                     Ok (Some node,
                         log_message (Log ''INFO'' ''Cache HIT for request key.'') s2))))))"

text \<open>The loop of \<^verbatim>\<open>evict_lru\<close> (lines 169 to 175) that unlinks \<open>lru_node\<close> from
  its hash chain \<open>h\<close>.\<close>

partial_function (option) unlink_loop ::
  "addr \<Rightarrow> nat \<Rightarrow> addr option \<Rightarrow> addr option \<Rightarrow> pstate \<Rightarrow> pstate outcome option" where
  "unlink_loop lru_node h cur prev s =
     (case cur of
        None \<Rightarrow> Some (Ok s)
      | Some c \<Rightarrow>
          (case nodes s c of
             None \<Rightarrow> Some Fault
           | Some cn \<Rightarrow>
               if c = lru_node then
                 (case prev of
                    Some p \<Rightarrow>
                      Some (seq (load s p) (\<lambda>pn. Ok (put_node p (pn\<lparr>h_next := h_next cn\<rparr>) s)))
                  | None \<Rightarrow>
                      Some (seq (slot s h) (\<lambda>_. Ok (set_slot h (h_next cn) s))))
               else unlink_loop lru_node h (h_next cn) (Some c) s))"

declare unlink_loop.simps [code]

text \<open>\<^verbatim>\<open>evict_lru()\<close>.\<close>

definition evict_lru :: "pstate \<Rightarrow> pstate outcome option" where
  "evict_lru s =
     (case tail (cache s) of
        None \<Rightarrow> Some (Ok s)
      | Some lru_node \<Rightarrow>
          (case seq (detach_node lru_node s) (\<lambda>s1.
                seq (load s1 lru_node) (\<lambda>n.
                case key n of
                  None \<Rightarrow> Fault
                | Some k \<Rightarrow> seq (bucket_of s1 k) (\<lambda>h. seq (slot s1 h) (\<lambda>cur. Ok (s1, h, cur))))) of
             Fault \<Rightarrow> Some Fault
           | Ok (s1, h, cur) \<Rightarrow>
               (case unlink_loop lru_node h cur None s1 of
                  None \<Rightarrow> None
                | Some Fault \<Rightarrow> Some Fault
                | Some (Ok s2) \<Rightarrow>
                    Some (seq (load s2 lru_node) (\<lambda>n.
                          let s3 = s2\<lparr>cache := (cache s2)\<lparr>size_c := size_c (cache s2) - data_size n\<rparr>\<rparr>;
                              s4 = log_message (LogSize ''INFO'' ''Evicting item. Cache size: %zu bytes''
                                                  (size_c (cache s3))) s3
                          in Ok (s4\<lparr>nodes := (nodes s4)(lru_node := None)\<rparr>))))))"

text \<open>The eviction loop of \<^verbatim>\<open>put_in_cache\<close> (line 185).\<close>

partial_function (option) evict_loop :: "size_t \<Rightarrow> pstate \<Rightarrow> pstate outcome option" where
  "evict_loop dsize s =
     (if capacity (cache s) < size_c (cache s) + dsize
      then (case evict_lru s of
              None \<Rightarrow> None
            | Some Fault \<Rightarrow> Some Fault
            | Some (Ok s1) \<Rightarrow> evict_loop dsize s1)
      else Some (Ok s))"

declare evict_loop.simps [code]

text \<open>What the three allocations of \<^verbatim>\<open>put_in_cache\<close> return: the address of the new
  node or NULL, and whether \<^verbatim>\<open>strdup(key)\<close> and \<^verbatim>\<open>malloc(data_size)\<close> succeed.\<close>

record allocation =
  node_block :: "addr option"
  key_block :: bool
  data_block :: bool

text \<open>Lines 186 to 196: the new node is filled, put in front of the recency list and in
  front of its hash chain. Storing through a NULL \<^verbatim>\<open>new_node\<close>, and \<^verbatim>\<open>memcpy\<close> to a NULL
  destination or from fewer than \<open>dsize\<close> source bytes, are undefined; a NULL from
  \<^verbatim>\<open>strdup\<close> is stored as the key.\<close>

definition insert_node :: "string \<Rightarrow> char list \<Rightarrow> size_t \<Rightarrow> allocation \<Rightarrow> pstate \<Rightarrow> pstate outcome" where
  "insert_node k dat dsize al s =
     (case node_block al of
        None \<Rightarrow> Fault
      | Some new_node \<Rightarrow>
          if \<not> data_block al \<or> length dat < unat dsize then Fault
          else
            let n = \<lparr>key = (if key_block al then Some k else None),
                     data = take (unat dsize) dat, data_size = dsize,
                     prev_node = None, next_node = None, h_next = None\<rparr>;
                s1 = put_node new_node n s
            in seq (attach_to_front new_node s1) (\<lambda>s2.
               let s3 = s2\<lparr>cache := (cache s2)\<lparr>size_c := size_c (cache s2) + dsize\<rparr>\<rparr>
               in seq (bucket_of s3 k) (\<lambda>h.
                  seq (slot s3 h) (\<lambda>first.
                  seq (load s3 new_node) (\<lambda>n3.
                  let s4 = put_node new_node (n3\<lparr>h_next := first\<rparr>) s3;
                      s5 = set_slot h (Some new_node) s4
                  in Ok (log_message (LogSize ''INFO'' ''Stored new item. Cache size: %zu bytes''
                                        (size_c (cache s5))) s5))))))"

text \<open>\<^verbatim>\<open>put_in_cache(key, data, data_size)\<close>.\<close>

definition put_in_cache ::
  "string \<Rightarrow> char list \<Rightarrow> size_t \<Rightarrow> allocation \<Rightarrow> pstate \<Rightarrow> pstate outcome option" where
  "put_in_cache k dat dsize al s =
     (if g_max_element_size s < dsize
      then Some (Ok (log_message (LogSize ''WARN'' ''Item too large to cache (%zu bytes)'' dsize) s))
      else (case evict_loop dsize s of
              None \<Rightarrow> None
            | Some Fault \<Rightarrow> Some Fault
            | Some (Ok s1) \<Rightarrow> Some (insert_node k dat dsize al s1)))"

section \<open>The HTTP fetch path (proxy\_server.c, lines 347 to 406)\<close>

text \<open>
  What the allocator and the network do during one call of \<^verbatim>\<open>handle_http_request\<close>:
  whether \<^verbatim>\<open>malloc(key_len)\<close>, \<^verbatim>\<open>gethostbyname\<close>, \<^verbatim>\<open>connect\<close> and
  \<^verbatim>\<open>malloc(g_max_element_size)\<close> succeed, the bytes the origin sends before it closes the
  connection, the largest number of bytes one \<^verbatim>\<open>recv\<close> delivers (0 when \<^verbatim>\<open>recv\<close> fails),
  and the allocations of \<^verbatim>\<open>put_in_cache\<close>.
\<close>

record origin =
  key_ok :: bool
  resolves :: bool
  connects :: bool
  response :: "char list"
  segment :: nat
  buffer_ok :: bool
  put_alloc :: allocation

text \<open>The number of bytes \<^verbatim>\<open>recv(sock, p, len, 0)\<close> returns when \<open>pending\<close> is still to
  come: never more than \<open>len\<close>, so nothing for a \<open>len\<close> of 0.\<close>

definition recv :: "nat \<Rightarrow> nat \<Rightarrow> char list \<Rightarrow> nat" where
  "recv seg len pending = min len (min seg (length pending))"

text \<open>The loop of lines 392 to 395, for a buffer of \<open>cap\<close> bytes: \<open>filled\<close> is the part
  of \<^verbatim>\<open>response_buffer\<close> written so far, \<^verbatim>\<open>total_response_size\<close> bytes long, and
  \<open>sent\<close> the bytes passed to \<^verbatim>\<open>send(client_socket, ...)\<close>. The result is both at the
  end of the loop. The sizes are natural numbers: \<^verbatim>\<open>total_response_size\<close> never exceeds
  the size of the buffer, so \<^verbatim>\<open>g_max_element_size - total_response_size\<close> does not wrap.\<close>

function recv_loop :: "nat \<Rightarrow> nat \<Rightarrow> char list \<Rightarrow> char list \<Rightarrow> char list \<Rightarrow> char list \<times> char list" where
  "recv_loop seg cap pending filled sent =
     (if 0 < recv seg (cap - length filled) pending
      then recv_loop seg cap (drop (recv seg (cap - length filled) pending) pending)
             (filled @ take (recv seg (cap - length filled) pending) pending)
             (sent @ take (recv seg (cap - length filled) pending) pending)
      else (filled, sent))"
  by pat_completeness auto
termination
  by (relation "measure (\<lambda>(seg, cap, pending, filled, sent). length pending)")
     (auto simp: recv_def)

declare recv_loop.simps [simp del]

text \<open>Line 359, \<^verbatim>\<open>send(client_socket, cached_item->data, cached_item->data_size, 0)\<close>: the
  bytes sent, read through the pointer \<^verbatim>\<open>get_from_cache\<close> returned.\<close>

definition send_cached_item :: "addr \<Rightarrow> pstate \<Rightarrow> char list outcome" where
  "send_cached_item a s =
     seq (load s a) (\<lambda>n. if length (data n) < unat (data_size n) then Fault
                          else Ok (take (unat (data_size n)) (data n)))"

text \<open>
  \<^verbatim>\<open>handle_http_request(client_socket, req, ...)\<close>. The result is the bytes sent to the
  client, the bytes sent to the origin, and the state. \<^verbatim>\<open>snprintf\<close> writes the key
  into a block of exactly its length, so the key is the host followed by the path. The
  port only selects the address to connect to.
\<close>

definition handle_http_request ::
  "ParsedRequest \<Rightarrow> origin \<Rightarrow> pstate \<Rightarrow> (char list \<times> char list \<times> pstate) outcome option" where
  "handle_http_request req net s =
     (case host req of
        None \<Rightarrow> Some (Ok ([], [],
          log_message (Log ''ERROR'' ''Cannot generate cache key from incomplete request.'') s))
      | Some h \<Rightarrow>
     (case path req of
        None \<Rightarrow> Some (Ok ([], [],
          log_message (Log ''ERROR'' ''Cannot generate cache key from incomplete request.'') s))
      | Some p \<Rightarrow>
        if \<not> key_ok net
        then Some (Ok ([], [], log_message (Log ''ERROR'' ''malloc for cache_key failed'') s))
        else
          (case get_from_cache (h @ p) s of
             None \<Rightarrow> None
           | Some Fault \<Rightarrow> Some Fault
           | Some (Ok (Some cached_item, s1)) \<Rightarrow>
               Some (seq (send_cached_item cached_item s1) (\<lambda>bytes. Ok (bytes, [], s1)))
           | Some (Ok (None, s1)) \<Rightarrow>
               if \<not> resolves net
               then Some (Ok ([], [],
                 log_message (LogStr ''ERROR'' ''Cannot resolve hostname for HTTP: %s'' h) s1))
               else if \<not> connects net
               then Some (Ok ([], [],
                 log_message (LogStr ''ERROR'' ''Failed to connect to remote host for HTTP: %s'' h) s1))
               else
                 (case new_request req of
                    None \<Rightarrow> Some Fault
                  | Some origin_request \<Rightarrow>
                      let s2 = log_message
                                 (LogStr ''INFO'' ''Forwarding new HTTP request for %s'' h) s1
                      in
                        if \<not> buffer_ok net then Some (Ok ([], origin_request, s2))
                        else
                          (case recv_loop (segment net) (unat (g_max_element_size s2))
                                  (response net) [] [] of
                             (response_buffer, sent) \<Rightarrow>
                               if 0 < length response_buffer
                               then
                                 (case put_in_cache (h @ p) response_buffer
                                         (of_nat (length response_buffer)) (put_alloc net) s2 of
                                    None \<Rightarrow> None
                                  | Some Fault \<Rightarrow> Some Fault
                                  | Some (Ok s3) \<Rightarrow> Some (Ok (sent, origin_request, s3)))
                               else Some (Ok (sent, origin_request, s2)))))))"

section \<open>Notions used to state the parser's properties\<close>

text \<open>\<open>str_at bs i s\<close>: in the block \<open>bs\<close> the NUL-terminated string at offset \<open>i\<close>
  is \<open>s\<close>.\<close>

definition str_at :: "char list \<Rightarrow> nat \<Rightarrow> string \<Rightarrow> bool" where
  "str_at bs i s \<longleftrightarrow>
     i + length s < length bs \<and> (\<forall>j < length s. bs ! (i + j) = s ! j) \<and> NUL \<notin> set s \<and> bs ! (i + length s) = NUL"

text \<open>What one \<^verbatim>\<open>strtok\<close> call makes of a string: the token is the first maximal run of
  non-delimiters, the rest is what follows the delimiter that ended the token.\<close>

definition tok_of :: "string \<Rightarrow> string \<Rightarrow> string" where
  "tok_of delim s = takeWhile (\<lambda>c. c \<notin> set delim) (dropWhile (\<lambda>c. c \<in> set delim) s)"

definition rest_of :: "string \<Rightarrow> string \<Rightarrow> string" where
  "rest_of delim s = drop 1 (dropWhile (\<lambda>c. c \<notin> set delim) (dropWhile (\<lambda>c. c \<in> set delim) s))"

text \<open>The fields the CONNECT branch sets from the URI token, and the whole parser as a
  function of the string in the caller's buffer.\<close>

definition connect_fields :: "ParsedRequest \<Rightarrow> string \<Rightarrow> ParsedRequest" where
  "connect_fields pr uri =
     (let h = tok_of '':'' uri;
          p = rest_of '':'' uri;
          pr1 = (if h = [] then pr else pr\<lparr>host := Some h\<rparr>)
      in if p = [] then pr1 else pr1\<lparr>port := Some p\<rparr>)"

definition parse_spec :: "ParsedRequest \<Rightarrow> string \<Rightarrow> int \<times> ParsedRequest" where
  "parse_spec pr str0 =
     (let line = tok_of [CR, LF] str0 in
      if line = [] then (- 1, pr)
      else
        let pr1 = pr\<lparr>buf := Some line\<rparr>;
            meth = tok_of '' '' line;
            r1 = rest_of '' '' line;
            uri = tok_of '' '' r1;
            ver = rest_of '' '' r1
        in if meth = [] \<or> uri = [] \<or> ver = [] then (- 1, pr1)
           else
             let pr2 = pr1\<lparr>method_r := Some meth, version := Some ver\<rparr>
             in if meth = ''CONNECT'' then (0, connect_fields pr2 uri)
                else if meth \<noteq> ''GET'' then (- 1, pr2)
                else parse_get pr2 uri)"

text \<open>The three tokens of the request line held by the buffer bytes.\<close>

definition request_line :: "char list \<Rightarrow> string" where
  "request_line bytes = tok_of [CR, LF] (takeWhile (\<lambda>c. c \<noteq> NUL) bytes)"

definition request_method :: "char list \<Rightarrow> string" where
  "request_method bytes = tok_of '' '' (request_line bytes)"

definition request_uri :: "char list \<Rightarrow> string" where
  "request_uri bytes = tok_of '' '' (rest_of '' '' (request_line bytes))"

definition request_version :: "char list \<Rightarrow> string" where
  "request_version bytes = rest_of '' '' (rest_of '' '' (request_line bytes))"

section \<open>Notions used to state the queue's properties\<close>

text \<open>A history of the queue: the operations in the order in which they took the mutex.
  \<open>run_queue\<close> performs them and collects what the dequeues that found a socket
  returned.\<close>

datatype queue_op = Enqueue int | Dequeue bool

fun run_queue :: "queue_op list \<Rightarrow> TaskQueue \<Rightarrow> (int list \<times> TaskQueue) step" where
  "run_queue [] q = Ret ([], q)"
| "run_queue (Enqueue fd # ops) q =
     (case enqueue_task fd q of
        Waits \<Rightarrow> Waits
      | UB \<Rightarrow> UB
      | Ret q' \<Rightarrow> run_queue ops q')"
| "run_queue (Dequeue running # ops) q =
     (case dequeue_task running q of
        Waits \<Rightarrow> Waits
      | UB \<Rightarrow> UB
      | Ret (fd, q') \<Rightarrow>
          (case run_queue ops q' of
             Waits \<Rightarrow> Waits
           | UB \<Rightarrow> UB
           | Ret (outs, q'') \<Rightarrow> Ret (if q_size q = 0 then outs else fd # outs, q'')))"

text \<open>The descriptors a history enqueues, in order; the descriptors waiting in the
  queue, from head to tail; the invariant of the circular buffer.\<close>

fun enqueued :: "queue_op list \<Rightarrow> int list" where
  "enqueued [] = []"
| "enqueued (Enqueue fd # ops) = fd # enqueued ops"
| "enqueued (Dequeue r # ops) = enqueued ops"

definition contents :: "TaskQueue \<Rightarrow> int list" where
  "contents q =
     (case sockets q of
        None \<Rightarrow> []
      | Some arr \<Rightarrow>
          map (\<lambda>i. arr ! nat ((q_head q + int i) mod q_capacity q)) [0..<nat (q_size q)])"

definition queue_inv :: "TaskQueue \<Rightarrow> bool" where
  "queue_inv q \<longleftrightarrow>
     0 \<le> q_size q \<and> q_size q \<le> q_capacity q \<and>
     (q_capacity q = 0 \<or> 
        (\<exists>arr. sockets q = Some arr \<and> int (length arr) = q_capacity q) \<and>
        0 \<le> q_head q \<and> q_head q < q_capacity q \<and>
        q_tail q = (q_head q + q_size q) mod q_capacity q)"

section \<open>Notions used to state the cache's properties\<close>

text \<open>\<open>succ_in xs a\<close> is the element behind \<open>a\<close> in the list \<open>xs\<close>, \<open>first_of xs\<close> its
  first element; both are \<open>None\<close> where a C pointer would be NULL.\<close>

fun succ_in :: "addr list \<Rightarrow> addr \<Rightarrow> addr option" where
  "succ_in [] a = None"
| "succ_in [x] a = None"
| "succ_in (x # y # ys) a = (if a = x then Some y else succ_in (y # ys) a)"

definition first_of :: "addr list \<Rightarrow> addr option" where
  "first_of xs = (case xs of [] \<Rightarrow> None | x # _ \<Rightarrow> Some x)"

text \<open>\<open>linked fld nd start xs\<close>: following the pointer field \<open>fld\<close> from \<open>start\<close> through
  the store \<open>nd\<close> visits exactly the nodes \<open>xs\<close>, each once, and ends in NULL.\<close>

definition linked ::
  "(CacheNode \<Rightarrow> addr option) \<Rightarrow> (addr \<Rightarrow> CacheNode option) \<Rightarrow> addr option \<Rightarrow> addr list \<Rightarrow> bool" where
  "linked fld nd start xs \<longleftrightarrow>
     distinct xs \<and> start = first_of xs \<and>
     (\<forall>a \<in> set xs. case nd a of None \<Rightarrow> False | Some n \<Rightarrow> fld n = succ_in xs a)"

text \<open>\<open>relinked s s'\<close>: the two states differ at most in the recency links
  (\<^verbatim>\<open>prev\<close>, \<^verbatim>\<open>next\<close>, \<^verbatim>\<open>head\<close>, \<^verbatim>\<open>tail\<close>).\<close>

definition payload :: "CacheNode \<Rightarrow> string option \<times> char list \<times> size_t \<times> addr option" where
  "payload n = (key n, data n, data_size n, h_next n)"

definition relinked :: "pstate \<Rightarrow> pstate \<Rightarrow> bool" where
  "relinked s s' \<longleftrightarrow>
     (\<forall>b. map_option payload (nodes s' b) = map_option payload (nodes s b)) \<and>
     capacity (cache s') = capacity (cache s) \<and> size_c (cache s') = size_c (cache s) \<and>
     table_size (cache s') = table_size (cache s) \<and> table (cache s') = table (cache s) \<and>
     log_lines s' = log_lines s \<and> g_max_element_size s' = g_max_element_size s"

text \<open>
  The invariant of the cache, for the recency list \<open>lru\<close> (most recently used first)
  and the hash chains \<open>chs\<close> (one list of nodes per bucket): the nodes of the store
  are exactly those of the recency list; \<^verbatim>\<open>next\<close> links them from \<^verbatim>\<open>head\<close> in this
  order and \<^verbatim>\<open>prev\<close> from \<^verbatim>\<open>tail\<close> in the reverse order; bucket \<open>h\<close> of the table
  heads the chain \<open>chs ! h\<close>, whose nodes have keys that hash to \<open>h\<close>; the chains
  together hold the nodes of the recency list; \<^verbatim>\<open>cache->size\<close> is the sum of the
  nodes' \<^verbatim>\<open>data_size\<close> and at most \<^verbatim>\<open>cache->capacity\<close>.
\<close>

definition total_size :: "pstate \<Rightarrow> addr list \<Rightarrow> nat" where
  "total_size s xs = sum_list (map (\<lambda>a. case nodes s a of None \<Rightarrow> 0 | Some n \<Rightarrow> unat (data_size n)) xs)"

definition chain_ok :: "pstate \<Rightarrow> nat \<Rightarrow> addr list \<Rightarrow> bool" where
  "chain_ok s h ch \<longleftrightarrow>
     linked h_next (nodes s) (table (cache s) ! h) ch \<and>
     (\<forall>a \<in> set ch. case nodes s a of
                        None \<Rightarrow> False
                      | Some n \<Rightarrow> (case key n of None \<Rightarrow> False | Some k \<Rightarrow> bucket_of s k = Ok h))"

definition cache_abs :: "pstate \<Rightarrow> addr list \<Rightarrow> addr list list \<Rightarrow> bool" where
  "cache_abs s lru chs \<longleftrightarrow>
     linked next_node (nodes s) (head (cache s)) lru \<and>
     linked prev_node (nodes s) (tail (cache s)) (rev lru) \<and>
     dom (nodes s) = set lru \<and>
     0 < table_size (cache s) \<and> table_size (cache s) < 2 ^ 31 \<and>
     length (table (cache s)) = nat (table_size (cache s)) \<and>
     length chs = length (table (cache s)) \<and>
     (\<forall>h < length chs. chain_ok s h (chs ! h)) \<and>
     set (concat chs) = set lru \<and>
     unat (size_c (cache s)) = total_size s lru \<and>
     size_c (cache s) \<le> capacity (cache s)"

definition cache_inv :: "pstate \<Rightarrow> bool" where
  "cache_inv s \<longleftrightarrow> (\<exists>lru chs. cache_abs s lru chs)"

text \<open>The first node of a chain whose key is \<open>k\<close>.\<close>

definition first_with_key :: "pstate \<Rightarrow> string \<Rightarrow> addr list \<Rightarrow> addr option" where
  "first_with_key s k ch =
     first_of (filter (\<lambda>a. case nodes s a of None \<Rightarrow> False | Some n \<Rightarrow> key n = Some k) ch)"

text \<open>\<open>survives s s'\<close>: every node of \<open>s'\<close> is a node of \<open>s\<close> with the same key and payload.\<close>

definition survives :: "pstate \<Rightarrow> pstate \<Rightarrow> bool" where
  "survives s s' \<longleftrightarrow>
     (\<forall>b m. nodes s' b = Some m \<longrightarrow>
        (\<exists>m0. nodes s b = Some m0 \<and> key m = key m0 \<and> data m = data m0 \<and> data_size m = data_size m0))"

text \<open>The configuration keeps \<^verbatim>\<open>cache->size + data_size\<close> from wrapping around.\<close>

definition no_wrap :: "pstate \<Rightarrow> bool" where
  "no_wrap s \<longleftrightarrow> unat (capacity (cache s)) + unat (g_max_element_size s) < 2 ^ 64"

text \<open>The allocations of a \<^verbatim>\<open>put_in_cache\<close> call that the invariant theorem covers:
  \<^verbatim>\<open>strdup\<close> and the two \<^verbatim>\<open>malloc\<close>s succeed, and the node block is not in use when
  \<^verbatim>\<open>malloc\<close> is called, which is after the evictions.\<close>

definition malloc_ok :: "allocation \<Rightarrow> size_t \<Rightarrow> pstate \<Rightarrow> bool" where
  "malloc_ok al dsize s \<longleftrightarrow>
     key_block al \<and> data_block al \<and>
     (case node_block al of
        None \<Rightarrow> False
      | Some a \<Rightarrow> (case evict_loop dsize s of Some (Ok s1) \<Rightarrow> nodes s1 a = None | _ \<Rightarrow> True))"

text \<open>The states a sequence of cache operations leads to from \<open>s0\<close>; each operation is
  one that returned.\<close>

inductive reachable :: "pstate \<Rightarrow> pstate \<Rightarrow> bool" for s0 :: pstate where
  reach_start: "reachable s0 s0"
| reach_get: "reachable s0 s \<Longrightarrow> get_from_cache k s = Some (Ok (r, s')) \<Longrightarrow> reachable s0 s'"
| reach_put: "reachable s0 s \<Longrightarrow> g_max_element_size s < dsize \<or> malloc_ok al dsize s \<Longrightarrow>
     put_in_cache k dat dsize al s = Some (Ok s') \<Longrightarrow> reachable s0 s'"

text \<open>The constants of a cache: they never change.\<close>

definition same_config :: "pstate \<Rightarrow> pstate \<Rightarrow> bool" where
  "same_config s s' \<longleftrightarrow>
     capacity (cache s') = capacity (cache s) \<and> table_size (cache s') = table_size (cache s) \<and>
     g_max_element_size s' = g_max_element_size s"

text \<open>One iteration of the eviction loop of \<^verbatim>\<open>put_in_cache\<close>: the loop condition holds in
  \<open>s\<close> and \<^verbatim>\<open>evict_lru\<close> returns in \<open>s1\<close>.\<close>

definition evict_iter :: "size_t \<Rightarrow> pstate \<Rightarrow> pstate \<Rightarrow> bool" where
  "evict_iter dsize s s1 \<longleftrightarrow>
     capacity (cache s) < size_c (cache s) + dsize \<and> evict_lru s = Some (Ok s1)"




section \<open>Properties of the parser\<close>

subsection \<open>Strings in a block\<close>

lemma str_at_drop:
  assumes "str_at bs i s"
  shows "drop i bs = s @ NUL # drop (Suc (i + length s)) bs"
proof -
  from assms have len: "i + length s < length bs" 
    and eq: "\<forall>j < length s. bs ! (i + j) = s ! j" and z: "bs ! (i + length s) = NUL"
    by (simp_all add: str_at_def)
  have t: "take (length s) (drop i bs) = s"
    using len eq by (intro nth_equalityI) auto
  have "drop (length s) (drop i bs) = drop (i + length s) bs"
    by (simp add: add.commute)
  also have "\<dots> = bs ! (i + length s) # drop (Suc (i + length s)) bs"
    using len by (rule Cons_nth_drop_Suc[symmetric])
  finally have d: "drop (length s) (drop i bs) = NUL # drop (Suc (i + length s)) bs"
    using z by simp
  have "drop i bs = take (length s) (drop i bs) @ drop (length s) (drop i bs)"
    by (rule append_take_drop_id[symmetric])
  then show ?thesis unfolding t d .
qed

lemma str_at_cstr:
  assumes "m a = Some bs" "str_at bs i s"
  shows "cstr m (a, i) = Some s"
proof -
  have nn: "NUL \<notin> set s" using assms(2) by (simp add: str_at_def)
  have d: "drop i bs = s @ NUL # drop (Suc (i + length s)) bs" by (rule str_at_drop[OF assms(2)])
  have "takeWhile (\<lambda>c. c \<noteq> NUL) (drop i bs) = s"
    unfolding d using nn by (subst takeWhile_append2) auto
  moreover have "NUL \<in> set (drop i bs)" unfolding d by simp
  ultimately show ?thesis using assms(1) by (simp add: cstr_def)
qed

lemma takeWhile_short: "\<exists>x\<in>set xs. \<not> P x \<Longrightarrow> length (takeWhile P xs) < length xs"
  by (induction xs) auto

lemma takeWhile_str_at:
  assumes "NUL \<in> set (drop i bs)"
  shows "str_at bs i (takeWhile (\<lambda>c. c \<noteq> NUL) (drop i bs))"
proof -
  let ?d = "drop i bs"
  let ?s = "takeWhile (\<lambda>c. c \<noteq> NUL) ?d"
  have l: "length ?s < length ?d" using assms by (intro takeWhile_short) auto
  then have l1: "i + length ?s < length bs" by simp
  have t: "\<forall>j < length ?s. bs ! (i + j) = ?s ! j" 
    using l1 by (auto simp: takeWhile_nth)
  have n: "NUL \<notin> set ?s" by (auto dest: set_takeWhileD)
  have "\<not> (?d ! length ?s \<noteq> NUL)" using l by (rule nth_length_takeWhile)
  then have z: "bs ! (i + length ?s) = NUL" using l1 by simp
  show ?thesis unfolding str_at_def using l1 t n z by blast
qed

lemma cstr_str_at:
  assumes "cstr m (a, i) = Some s"
  shows "\<exists>bs. m a = Some bs \<and> str_at bs i s"
  using assms takeWhile_str_at by (auto simp: cstr_def split: option.splits if_splits)

lemma str_at_upd_after:
  "str_at bs i s \<Longrightarrow> i + length s < j \<Longrightarrow> str_at (bs[j := c]) i s"
  by (auto simp: str_at_def)

lemma str_at_suffix:
  "str_at bs i s \<Longrightarrow> k \<le> length s \<Longrightarrow> str_at bs (i + k) (drop k s)"
  by (auto simp: str_at_def add.assoc dest: in_set_dropD)

lemma str_at_cut:
  "str_at bs i s \<Longrightarrow> k < length s \<Longrightarrow> str_at (bs[i + k := NUL]) i (take k s)"
  by (auto simp: str_at_def dest: in_set_takeD)

lemma str_at_cut_rest:
  assumes "str_at bs i s" "k < length s" 
  shows "str_at (bs[i + k := NUL]) (Suc (i + k)) (drop (Suc k) s)"
proof -
  have "str_at bs (i + Suc k) (drop (Suc k) s)" using assms by (intro str_at_suffix) auto
  then have "str_at (bs[i + k := NUL]) (i + Suc k) (drop (Suc k) s)"
    by (auto simp: str_at_def)
  then show ?thesis by simp
qed

subsection \<open>What strtok returns and what it leaves in memory\<close>

lemma tok_of_nil_iff: "tok_of delim s = [] \<longleftrightarrow> dropWhile (\<lambda>c. c \<in> set delim) s = []"
proof
  assume "tok_of delim s = []"
  show "dropWhile (\<lambda>c. c \<in> set delim) s = []"
  proof (rule ccontr)
    assume ne: "dropWhile (\<lambda>c. c \<in> set delim) s \<noteq> []"
    then have "\<not> (hd (dropWhile (\<lambda>c. c \<in> set delim) s) \<in> set delim)" by (rule hd_dropWhile)
    with ne have "takeWhile (\<lambda>c. c \<notin> set delim) (dropWhile (\<lambda>c. c \<in> set delim) s) \<noteq> []"
      by (cases "dropWhile (\<lambda>c. c \<in> set delim) s") auto
    with \<open>tok_of delim s = []\<close> show False by (simp add: tok_of_def)
  qed
next
  assume "dropWhile (\<lambda>c. c \<in> set delim) s = []"
  then show "tok_of delim s = []" unfolding tok_of_def by (simp only: takeWhile.simps)
qed

lemma strtok_spec:
  assumes ma: "m a = Some bs" and sa: "str_at bs i str"
    and start: "(case s of None \<Rightarrow> sv | Some q \<Rightarrow> q) = (a, i)"
  shows "\<exists>r bs' e. strtok s delim (m, sv) = Some (r, m(a \<mapsto> bs'), (a, e))
      \<and> (tok_of delim str = [] \<longrightarrow> r = None)
      \<and> (tok_of delim str \<noteq> [] \<longrightarrow>
            (\<exists>q. r = Some (a, q) \<and> str_at bs' q (tok_of delim str) \<and> q + length (tok_of delim str) \<le> e))
      \<and> str_at bs' e (rest_of delim str) \<and> i \<le> e
      \<and> (\<forall>j s0. str_at bs j s0 \<longrightarrow> j + length s0 \<le> i \<longrightarrow> str_at bs' j s0)"
proof -
  let ?D = "\<lambda>c. c \<in> set delim"
  let ?N = "\<lambda>c. c \<notin> set delim"
  define k where "k = length (takeWhile ?D str)"
  define rst where "rst = drop k str"
  define tok where "tok = takeWhile ?N rst"
  have rst_dw: "rst = dropWhile ?D str" unfolding rst_def k_def by (rule dropWhile_eq_drop[symmetric])
  have tok_eq: "tok = tok_of delim str" by (simp add: tok_def tok_of_def rst_dw)
  have rest_eq: "rest_of delim str = drop 1 (drop (length tok) rst)"
    unfolding rest_of_def tok_def rst_dw[symmetric] by (simp add: dropWhile_eq_drop)
  have kle: "k \<le> length str" unfolding k_def by (rule length_takeWhile_le)
  have lrst: "length rst = length str - k" by (simp add: rst_def)
  have ltok: "length tok \<le> length rst" unfolding tok_def by (rule length_takeWhile_le)
  have cs: "cstr m (a, i) = Some str" using ma sa by (rule str_at_cstr)
  have sr: "str_at bs (i + k) rst" unfolding rst_def by (rule str_at_suffix[OF sa kle])
  have mm: "m(a \<mapsto> bs) = m" using ma by (rule map_upd_triv)
  have st: "strtok s delim (m, sv) =
      (if rst = [] then Some (None, m, (a, i + k))
       else if i + k + length tok = i + length str then Some (Some (a, i + k), m, (a, i + k + length tok))
       else poke m (a, i + k + length tok) NUL \<bind> (\<lambda>m'. Some (Some (a, i + k), m', (a, i + k + length tok + 1))))"
    unfolding strtok_def Let_def fst_conv snd_conv start cs k_def rst_def tok_def by simp
  show ?thesis
  proof (cases "rst = []")
    case True
    then have t0: "tok_of delim str = []" using tok_eq by (simp add: tok_def)
    have r0: "rest_of delim str = []" using True rest_eq by simp
    have "strtok s delim (m, sv) = Some (None, m(a \<mapsto> bs), (a, i + k))" using st True mm by simp
    moreover have "str_at bs (i + k) (rest_of delim str)" using sr True r0 by simp
    ultimately show ?thesis using t0 by (intro exI[of _ None] exI[of _ bs] exI[of _ "i + k"]) simp
  next
    case False
    then have tne: "tok \<noteq> []"
      using tok_eq tok_of_nil_iff[of delim str] rst_dw by simp
    show ?thesis
    proof (cases "i + k + length tok = i + length str")
      case True
      then have full: "length tok = length rst" using lrst kle by simp
      then have tr: "tok = rst" unfolding tok_def by (metis takeWhile_eq_take take_all order_refl)
      have r0: "rest_of delim str = []" using rest_eq full by simp
      have e: "str_at bs (i + k + length tok) []"
        using str_at_suffix[OF sr, of "length rst"] full by simp
      have "strtok s delim (m, sv) = Some (Some (a, i + k), m(a \<mapsto> bs), (a, i + k + length tok))"
        using st False True mm by simp
      then show ?thesis using tne tok_eq sr tr r0 e
        by (intro exI[of _ "Some (a, i + k)"] exI[of _ bs] exI[of _ "i + k + length tok"]) auto
    next
      case ne: False
      then have lt: "length tok < length rst" using ltok lrst kle by simp
      let ?e = "i + k + length tok"
      have elen: "?e < length bs" using sr lt by (simp add: str_at_def)
      let ?bs' = "bs[?e := NUL]"
      have pk: "poke m (a, ?e) NUL = Some (m(a \<mapsto> ?bs'))" using ma elen by (simp add: poke_def)
      have tt: "take (length tok) rst = tok" unfolding tok_def by (rule takeWhile_eq_take[symmetric])
      have s1: "str_at ?bs' (i + k) tok" using str_at_cut[OF sr lt] tt by simp
      have s2: "str_at ?bs' (Suc ?e) (rest_of delim str)"
        using str_at_cut_rest[OF sr lt] rest_eq by simp
      have pres: "\<forall>j s0. str_at bs j s0 \<longrightarrow> j + length s0 \<le> i \<longrightarrow> str_at ?bs' j s0"
      proof (intro allI impI)
        fix j s0 assume a1: "str_at bs j s0" and a2: "j + length s0 \<le> i"
        from tne have "0 < length tok" by simp
        with a2 have "j + length s0 < i + k + length tok" by linarith
        with a1 show "str_at ?bs' j s0" by (rule str_at_upd_after)
      qed
      have "strtok s delim (m, sv) = Some (Some (a, i + k), m(a \<mapsto> ?bs'), (a, Suc ?e))"
        using st False ne pk by simp
      then show ?thesis using tne tok_eq s1 s2 pres
        by (intro exI[of _ "Some (a, i + k)"] exI[of _ ?bs'] exI[of _ "Suc ?e"]) auto
    qed
  qed
qed

lemma tok_of_no_delim: "tok_of [] s = s"
  by (simp add: tok_of_def)

lemma takeWhile_snoc_stop: "\<not> P x \<Longrightarrow> takeWhile P (xs @ [x]) = takeWhile P xs"
  by (induction xs) auto

lemma strtok_step:
  assumes "str_at bs i str" and "(case s of None \<Rightarrow> sv | Some q \<Rightarrow> q) = (t, i)"
  obtains r bs' e where
    "strtok s delim (m(t \<mapsto> bs), sv) = Some (r, m(t \<mapsto> bs'), (t, e))"
    "tok_of delim str = [] \<Longrightarrow> r = None"
    "tok_of delim str \<noteq> [] \<Longrightarrow>
       \<exists>q. r = Some (t, q) \<and> str_at bs' q (tok_of delim str) \<and> q + length (tok_of delim str) \<le> e"
    "str_at bs' e (rest_of delim str)" "i \<le> e"
    "\<And>j s0. str_at bs j s0 \<Longrightarrow> j + length s0 \<le> i \<Longrightarrow> str_at bs' j s0"
proof -
  have "(m(t \<mapsto> bs)) t = Some bs" by simp
  from strtok_spec[where m = "m(t \<mapsto> bs)" and a = t and bs = bs and i = i and str = str
      and s = s and sv = sv and delim = delim, OF this assms(1) assms(2)]
  obtain r bs' e where
    "strtok s delim (m(t \<mapsto> bs), sv) = Some (r, (m(t \<mapsto> bs))(t \<mapsto> bs'), (t, e))"
    "tok_of delim str = [] \<longrightarrow> r = None"
    "tok_of delim str \<noteq> [] \<longrightarrow>
       (\<exists>q. r = Some (t, q) \<and> str_at bs' q (tok_of delim str) \<and> q + length (tok_of delim str) \<le> e)"
    "str_at bs' e (rest_of delim str)" "i \<le> e"
    "\<forall>j s0. str_at bs j s0 \<longrightarrow> j + length s0 \<le> i \<longrightarrow> str_at bs' j s0"
    by blast
  then show ?thesis by (intro that[of r bs' e]) auto
qed

lemma parse_connect_eq:
  assumes su: "str_at bs qu uri" and ne: "uri \<noteq> []"
  shows "\<exists>bs' e. parse_connect pr (t, qu) (m(t \<mapsto> bs), sv) = Some (connect_fields pr uri, m(t \<mapsto> bs'), (t, e))"
proof -
  obtain r1 bs1 e1 where
    st1: "strtok (Some (t, qu)) '':'' (m(t \<mapsto> bs), sv) = Some (r1, m(t \<mapsto> bs1), (t, e1))"
    and n1: "tok_of '':'' uri = [] \<Longrightarrow> r1 = None"
    and s1: "tok_of '':'' uri \<noteq> [] \<Longrightarrow>
       \<exists>q. r1 = Some (t, q) \<and> str_at bs1 q (tok_of '':'' uri) \<and> q + length (tok_of '':'' uri) \<le> e1"
    and rs1: "str_at bs1 e1 (rest_of '':'' uri)"
    by (rule strtok_step[OF su, where s = "Some (t, qu)" and sv = sv and t = t and delim = "'':''" and m = m]) auto
  obtain r2 bs2 e2 where
    st2: "strtok None [] (m(t \<mapsto> bs1), (t, e1)) = Some (r2, m(t \<mapsto> bs2), (t, e2))"
    and n2: "tok_of [] (rest_of '':'' uri) = [] \<Longrightarrow> r2 = None"
    and s2: "tok_of [] (rest_of '':'' uri) \<noteq> [] \<Longrightarrow>
       \<exists>q. r2 = Some (t, q) \<and> str_at bs2 q (tok_of [] (rest_of '':'' uri)) \<and> q + length (tok_of [] (rest_of '':'' uri)) \<le> e2"
    and pres2: "\<And>j s0. str_at bs1 j s0 \<Longrightarrow> j + length s0 \<le> e1 \<Longrightarrow> str_at bs2 j s0"
    by (rule strtok_step[OF rs1, where s = None and sv = "(t, e1)" and t = t and delim = "[]" and m = m]) auto
  have hostpart: "(case r1 of None \<Rightarrow> Some pr | Some hp \<Rightarrow> cstr (m(t \<mapsto> bs2)) hp \<bind> (\<lambda>h. Some (pr\<lparr>host := Some h\<rparr>)))
      = Some (if tok_of '':'' uri = [] then pr else pr\<lparr>host := Some (tok_of '':'' uri)\<rparr>)"
  proof (cases "tok_of '':'' uri = []")
    case True then show ?thesis using n1 by simp
  next
    case False
    from s1[OF False] obtain q where q: "r1 = Some (t, q)" "str_at bs1 q (tok_of '':'' uri)"
       "q + length (tok_of '':'' uri) \<le> e1" by blast
    have "str_at bs2 q (tok_of '':'' uri)" using q(2,3) by (rule pres2)
    then have "cstr (m(t \<mapsto> bs2)) (t, q) = Some (tok_of '':'' uri)"
      by (intro str_at_cstr[of _ _ bs2]) auto
    then show ?thesis using False q(1) by simp
  qed
  have portpart: "\<And>x. (case r2 of None \<Rightarrow> Some x | Some pp \<Rightarrow> cstr (m(t \<mapsto> bs2)) pp \<bind> (\<lambda>p. Some (x\<lparr>port := Some p\<rparr>)))
      = Some (if rest_of '':'' uri = [] then x else x\<lparr>port := Some (rest_of '':'' uri)\<rparr>)"
  proof -
    fix x
    show "(case r2 of None \<Rightarrow> Some x | Some pp \<Rightarrow> cstr (m(t \<mapsto> bs2)) pp \<bind> (\<lambda>p. Some (x\<lparr>port := Some p\<rparr>)))
      = Some (if rest_of '':'' uri = [] then x else x\<lparr>port := Some (rest_of '':'' uri)\<rparr>)"
    proof (cases "rest_of '':'' uri = []")
      case True then show ?thesis using n2 by (simp add: tok_of_no_delim)
    next
      case False
      then have "tok_of [] (rest_of '':'' uri) \<noteq> []" by (simp add: tok_of_no_delim)
      from s2[OF this] obtain q where q: "r2 = Some (t, q)" "str_at bs2 q (rest_of '':'' uri)"
        by (auto simp: tok_of_no_delim)
      have "cstr (m(t \<mapsto> bs2)) (t, q) = Some (rest_of '':'' uri)"
        using q(2) by (intro str_at_cstr[of _ _ bs2]) auto
      then show ?thesis using False q(1) by simp
    qed
  qed
  have "parse_connect pr (t, qu) (m(t \<mapsto> bs), sv) = Some (connect_fields pr uri, m(t \<mapsto> bs2), (t, e2))"
    unfolding parse_connect_def st1 by (simp add: st2 hostpart portpart connect_fields_def Let_def)
  then show ?thesis by blast
qed

subsection \<open>The parser as a function of the buffer's string\<close>

lemma parse_eq:
  assumes pk: "peek_n m b (nat buflen) = Some bytes" and lo: "4 \<le> buflen"
    and hi: "buflen < 2147483647" and fresh: "m t = None"
  shows "\<exists>sv'. ParsedRequest_parse (Some pr) (Some b) buflen (Some t) (m, sv) =
     Some (fst (parse_spec pr (takeWhile (\<lambda>c. c \<noteq> NUL) bytes)),
           Some (snd (parse_spec pr (takeWhile (\<lambda>c. c \<noteq> NUL) bytes))), m, sv')"
proof -
  define str0 where "str0 = takeWhile (\<lambda>c. c \<noteq> NUL) bytes"
  define line where "line = tok_of [CR, LF] str0"
  define meth where "meth = tok_of '' '' line"
  define r1 where "r1 = rest_of '' '' line"
  define uri where "uri = tok_of '' '' r1"
  define ver where "ver = rest_of '' '' r1"
  let ?bs0 = "bytes @ [NUL]"
  have fr: "\<And>bs. free_block (m(t \<mapsto> bs)) t = m"
    using fresh by (auto simp: free_block_def)
  have "str_at ?bs0 0 (takeWhile (\<lambda>c. c \<noteq> NUL) (drop 0 ?bs0))"
    by (rule takeWhile_str_at) simp
  then have sa0: "str_at ?bs0 0 str0"
    by (simp add: str0_def takeWhile_snoc_stop)
  obtain p1 bs1 e1 where
    st1: "strtok (Some (t, 0)) [CR, LF] (m(t \<mapsto> ?bs0), sv) = Some (p1, m(t \<mapsto> bs1), (t, e1))"
    and n1: "line = [] \<Longrightarrow> p1 = None"
    and s1: "line \<noteq> [] \<Longrightarrow> \<exists>q. p1 = Some (t, q) \<and> str_at bs1 q line \<and> q + length line \<le> e1"
    unfolding line_def
    by (rule strtok_step[OF sa0, where s = "Some (t, 0)" and sv = sv and t = t
          and delim = "[CR, LF]" and m = m]) auto
  have start: "ParsedRequest_parse (Some pr) (Some b) buflen (Some t) (m, sv) =
      (case p1 of
         None \<Rightarrow> Some (- 1, Some pr, free_block (m(t \<mapsto> bs1)) t, (t, e1))
       | Some rl \<Rightarrow>
           cstr (m(t \<mapsto> bs1)) rl \<bind>
           (\<lambda>line.
              let pr1 = pr\<lparr>buf := Some line\<rparr>
              in strtok (Some rl) '' '' (m(t \<mapsto> bs1), (t, e1)) \<bind>
                 (\<lambda>(method_p, m2, s2).
                    strtok None '' '' (m2, s2) \<bind>
                    (\<lambda>(uri_p, m3, s3).
                       strtok None [] (m3, s3) \<bind>
                       (\<lambda>(version_p, m4, s4).
                          case (method_p, uri_p, version_p) of
                            (Some mp, Some up, Some vp) \<Rightarrow>
                              cstr m4 mp \<bind>
                              (\<lambda>ms. cstr m4 vp \<bind>
                                 (\<lambda>vs. let pr2 = pr1\<lparr>method_r := Some ms, version := Some vs\<rparr>
                                    in if ms = ''CONNECT''
                                       then parse_connect pr2 up (m4, s4) \<bind>
                                            (\<lambda>(pr3, m5, s5). Some (0, Some pr3, free_block m5 t, s5))
                                       else if ms \<noteq> ''GET'' then Some (- 1, Some pr2, free_block m4 t, s4)
                                       else cstr m4 up \<bind>
                                            (\<lambda>uri_copy.
                                               let (rc, pr3) = parse_get pr2 uri_copy
                                               in Some (rc, Some pr3, free_block m4 t, s4))))
                          | _ \<Rightarrow> Some (- 1, Some pr1, free_block m4 t, s4))))))"
    using pk lo hi by (simp add: ParsedRequest_parse_def st1)
  show ?thesis
  proof (cases "line = []")
    case True
    then have "parse_spec pr str0 = (- 1, pr)" by (simp add: parse_spec_def line_def)
    then show ?thesis using start n1[OF True] fr by (simp add: str0_def)
  next
    case lne: False
    from s1[OF lne] obtain q1 where p1: "p1 = Some (t, q1)" and sl: "str_at bs1 q1 line" by blast
    have cl: "cstr (m(t \<mapsto> bs1)) (t, q1) = Some line"
      using sl by (intro str_at_cstr[of _ _ bs1]) auto
    obtain p2 bs2 e2 where
      st2: "strtok (Some (t, q1)) '' '' (m(t \<mapsto> bs1), (t, e1)) = Some (p2, m(t \<mapsto> bs2), (t, e2))"
      and n2: "meth = [] \<Longrightarrow> p2 = None"
      and s2: "meth \<noteq> [] \<Longrightarrow> \<exists>q. p2 = Some (t, q) \<and> str_at bs2 q meth \<and> q + length meth \<le> e2"
      and rs2: "str_at bs2 e2 r1"
      unfolding meth_def r1_def
      by (rule strtok_step[OF sl, where s = "Some (t, q1)" and sv = "(t, e1)" and t = t
            and delim = "'' ''" and m = m]) auto
    obtain p3 bs3 e3 where
      st3: "strtok None '' '' (m(t \<mapsto> bs2), (t, e2)) = Some (p3, m(t \<mapsto> bs3), (t, e3))"
      and n3: "uri = [] \<Longrightarrow> p3 = None"
      and s3: "uri \<noteq> [] \<Longrightarrow> \<exists>q. p3 = Some (t, q) \<and> str_at bs3 q uri \<and> q + length uri \<le> e3"
      and rs3: "str_at bs3 e3 ver" and le3: "e2 \<le> e3"
      and pres3: "\<And>j s0. str_at bs2 j s0 \<Longrightarrow> j + length s0 \<le> e2 \<Longrightarrow> str_at bs3 j s0"
      unfolding uri_def ver_def
      by (rule strtok_step[OF rs2, where s = None and sv = "(t, e2)" and t = t
            and delim = "'' ''" and m = m]) auto
    obtain p4 bs4 e4 where
      st4: "strtok None [] (m(t \<mapsto> bs3), (t, e3)) = Some (p4, m(t \<mapsto> bs4), (t, e4))"
      and n4: "ver = [] \<Longrightarrow> p4 = None"
      and s4: "ver \<noteq> [] \<Longrightarrow> \<exists>q. p4 = Some (t, q) \<and> str_at bs4 q ver"
      and pres4: "\<And>j s0. str_at bs3 j s0 \<Longrightarrow> j + length s0 \<le> e3 \<Longrightarrow> str_at bs4 j s0"
      by (rule strtok_step[OF rs3, where s = None and sv = "(t, e3)" and t = t
            and delim = "[]" and m = m]) (auto simp: tok_of_no_delim)
    have spec: "parse_spec pr str0 =
        (if meth = [] \<or> uri = [] \<or> ver = [] then (- 1, pr\<lparr>buf := Some line\<rparr>)
         else if meth = ''CONNECT''
              then (0, connect_fields (pr\<lparr>buf := Some line, method_r := Some meth, version := Some ver\<rparr>) uri)
              else if meth \<noteq> ''GET''
                   then (- 1, pr\<lparr>buf := Some line, method_r := Some meth, version := Some ver\<rparr>)
                   else parse_get (pr\<lparr>buf := Some line, method_r := Some meth, version := Some ver\<rparr>) uri)"
      using lne by (simp add: parse_spec_def Let_def line_def meth_def r1_def uri_def ver_def)
    show ?thesis
    proof (cases "meth = [] \<or> uri = [] \<or> ver = []")
      case True
      then have "ParsedRequest_parse (Some pr) (Some b) buflen (Some t) (m, sv) =
          Some (- 1, Some (pr\<lparr>buf := Some line\<rparr>), m, (t, e4))"
        using n2 n3 n4 by (auto simp: start p1 cl st2 st3 st4 fr Let_def split: option.splits)
      then show ?thesis using True spec by (simp add: str0_def)
    next
      case False
      then have mne: "meth \<noteq> []" and une: "uri \<noteq> []" and vne: "ver \<noteq> []" by auto
      from s2[OF mne] obtain q2 where p2: "p2 = Some (t, q2)" and sm2: "str_at bs2 q2 meth"
        and b2: "q2 + length meth \<le> e2" by blast
      from s3[OF une] obtain q3 where p3: "p3 = Some (t, q3)" and su3: "str_at bs3 q3 uri"
        and b3: "q3 + length uri \<le> e3" by blast
      from s4[OF vne] obtain q4 where p4: "p4 = Some (t, q4)" and sv4: "str_at bs4 q4 ver" by blast
      have sm4: "str_at bs4 q2 meth"
        using pres4[OF pres3[OF sm2 b2]] b2 le3 by simp
      have su4: "str_at bs4 q3 uri" using pres4[OF su3 b3] .
      have cm: "cstr (m(t \<mapsto> bs4)) (t, q2) = Some meth"
        using sm4 by (intro str_at_cstr[of _ _ bs4]) auto
      have cv: "cstr (m(t \<mapsto> bs4)) (t, q4) = Some ver"
        using sv4 by (intro str_at_cstr[of _ _ bs4]) auto
      have cu: "cstr (m(t \<mapsto> bs4)) (t, q3) = Some uri"
        using su4 by (intro str_at_cstr[of _ _ bs4]) auto
      obtain bs5 e5 where pc: "parse_connect (pr\<lparr>buf := Some line, method_r := Some meth, version := Some ver\<rparr>)
             (t, q3) (m(t \<mapsto> bs4), (t, e4)) =
          Some (connect_fields (pr\<lparr>buf := Some line, method_r := Some meth, version := Some ver\<rparr>) uri,
                m(t \<mapsto> bs5), (t, e5))"
        using parse_connect_eq[OF su4 une] by blast
      note run = start p1 cl st2 st3 st4 p2 p3 p4 cv cu fr Let_def
      consider (c) "meth = ''CONNECT''" | (g) "meth = ''GET''"
        | (o) "meth \<noteq> ''CONNECT''" "meth \<noteq> ''GET''" by blast
      then have "\<exists>sv'. ParsedRequest_parse (Some pr) (Some b) buflen (Some t) (m, sv) =
          Some (fst (parse_spec pr str0), Some (snd (parse_spec pr str0)), m, sv')"
      proof cases
        case c
        have "ParsedRequest_parse (Some pr) (Some b) buflen (Some t) (m, sv) =
            Some (0, Some (connect_fields (pr\<lparr>buf := Some line, method_r := Some ''CONNECT'',
                    version := Some ver\<rparr>) uri), m, (t, e5))"
          by (simp add: run cm[unfolded c] pc[unfolded c])
        moreover have "parse_spec pr str0 = (0, connect_fields (pr\<lparr>buf := Some line,
                    method_r := Some ''CONNECT'', version := Some ver\<rparr>) uri)"
          using False c by (simp add: spec)
        ultimately show ?thesis by simp
      next
        case g
        have "ParsedRequest_parse (Some pr) (Some b) buflen (Some t) (m, sv) =
            Some (fst (parse_get (pr\<lparr>buf := Some line, method_r := Some ''GET'',
                    version := Some ver\<rparr>) uri),
                  Some (snd (parse_get (pr\<lparr>buf := Some line, method_r := Some ''GET'',
                    version := Some ver\<rparr>) uri)), m, (t, e4))"
          by (simp add: run cm[unfolded g] split: prod.splits)
        moreover have "parse_spec pr str0 = parse_get (pr\<lparr>buf := Some line,
                    method_r := Some ''GET'', version := Some ver\<rparr>) uri"
          using False g by (simp add: spec)
        ultimately show ?thesis by simp
      next
        case o
        have "ParsedRequest_parse (Some pr) (Some b) buflen (Some t) (m, sv) =
            Some (- 1, Some (pr\<lparr>buf := Some line, method_r := Some meth,
                    version := Some ver\<rparr>), m, (t, e4))"
          using o by (simp add: run cm)
        moreover have "parse_spec pr str0 = (- 1, pr\<lparr>buf := Some line,
                    method_r := Some meth, version := Some ver\<rparr>)"
          using False o by (simp add: spec)
        ultimately show ?thesis by simp
      qed
      then show ?thesis by (simp add: str0_def)
    qed
  qed
qed

lemmas parse_eval = ParsedRequest_parse_def ParsedRequest_create_def peek_n_def strtok_def
  cstr_def poke_def NUL_def CR_def LF_def parse_get_def parse_connect_def strchr_def
  free_block_def

subsection \<open>The claims about the parser\<close>

text \<open>
  Claim C7. Parsing the request line \<^verbatim>\<open>GET http://example.com/a HTTP/1.0\<close> into a
  fresh structure succeeds (return code 0) with host \<^verbatim>\<open>example.com\<close>, path \<^verbatim>\<open>/a\<close>
  and version \<^verbatim>\<open>HTTP/1.0\<close>, and the origin request built from these fields is
  exactly \<^verbatim>\<open>GET /a HTTP/1.0\r\nHost: example.com\r\nConnection: close\r\n\r\n\<close>.
\<close>

theorem get_request_round_trip:
  "ParsedRequest_parse (Some ParsedRequest_create) (Some (0, 0)) 33 (Some 1)
     ([0 \<mapsto> ''GET http://example.com/a HTTP/1.0''], (0, 0)) =
   Some (0,
         Some \<lparr>method_r = Some ''GET'', protocol = None, host = Some ''example.com'',
               port = None, path = Some ''/a'', version = Some ''HTTP/1.0'',
               buf = Some ''GET http://example.com/a HTTP/1.0''\<rparr>,
         [0 \<mapsto> ''GET http://example.com/a HTTP/1.0''], (1, 33))
   \<and> new_request
         \<lparr>method_r = Some ''GET'', protocol = None, host = Some ''example.com'',
          port = None, path = Some ''/a'', version = Some ''HTTP/1.0'',
          buf = Some ''GET http://example.com/a HTTP/1.0''\<rparr> =
       Some (''GET /a HTTP/1.0'' @ [CR, LF] @ ''Host: example.com'' @ [CR, LF]
               @ ''Connection: close'' @ [CR, LF, CR, LF])"
  by (simp add: parse_eval new_request_def MAX_REQUEST_LEN_def)

text \<open>
  Claim C2 as stated fails. \<^verbatim>\<open>CONNECT example.com HTTP/1.1\<close> has no colon in its URI,
  and the parser returns 0 with the port left NULL. In \<^verbatim>\<open>CONNECT a:b:c HTTP/1.1\<close> the
  URI is split at its first colon, into the host \<^verbatim>\<open>a\<close> and the port \<^verbatim>\<open>b:c\<close>, not at
  the last one.
\<close>

theorem connect_without_port_counterexample:
  "ParsedRequest_parse (Some ParsedRequest_create) (Some (0, 0)) 28 (Some 1)
     ([0 \<mapsto> ''CONNECT example.com HTTP/1.1''], (0, 0)) =
   Some (0,
         Some \<lparr>method_r = Some ''CONNECT'', protocol = None, host = Some ''example.com'',
               port = None, path = None, version = Some ''HTTP/1.1'',
               buf = Some ''CONNECT example.com HTTP/1.1''\<rparr>,
         [0 \<mapsto> ''CONNECT example.com HTTP/1.1''], (1, 19))
   \<and> ParsedRequest_parse (Some ParsedRequest_create) (Some (0, 0)) 22 (Some 1)
     ([0 \<mapsto> ''CONNECT a:b:c HTTP/1.1''], (0, 0)) =
   Some (0,
         Some \<lparr>method_r = Some ''CONNECT'', protocol = None, host = Some ''a'',
               port = Some ''b:c'', path = None, version = Some ''HTTP/1.1'',
               buf = Some ''CONNECT a:b:c HTTP/1.1''\<rparr>,
         [0 \<mapsto> ''CONNECT a:b:c HTTP/1.1''], (1, 13))"
  by (simp add: parse_eval)

lemma tok_of_starts:
  assumes "s \<noteq> []" and "hd s \<notin> set delim"
  shows "tok_of delim s = takeWhile (\<lambda>c. c \<notin> set delim) s"
    and "rest_of delim s = drop 1 (dropWhile (\<lambda>c. c \<notin> set delim) s)"
    and "tok_of delim s \<noteq> []"
proof -
  from assms obtain c cs where s: "s = c # cs" "c \<notin> set delim" by (cases s) auto
  then have d: "dropWhile (\<lambda>c. c \<in> set delim) s = s" by simp
  show "tok_of delim s = takeWhile (\<lambda>c. c \<notin> set delim) s" unfolding tok_of_def d ..
  show "rest_of delim s = drop 1 (dropWhile (\<lambda>c. c \<notin> set delim) s)" unfolding rest_of_def d ..
  show "tok_of delim s \<noteq> []" unfolding tok_of_def d using s by simp
qed

text \<open>
  Claim C2, amended. For every buffer whose request line has the method \<^verbatim>\<open>CONNECT\<close>,
  a URI that begins with a character other than a colon, and a version, parsing into a
  fresh structure succeeds. The URI is split at its first colon: the host is the text
  before it, which is not empty, and the port is everything behind it; the port is left
  unset when the URI has no colon or nothing follows the colon. So after the parse the
  host is non-empty, and the port is unset or non-empty.
\<close>

theorem connect_parse:
  assumes pk: "peek_n m b (nat buflen) = Some bytes" and lo: "4 \<le> buflen"
    and hi: "buflen < 2147483647" and fresh: "m t = None"
    and meth: "request_method bytes = ''CONNECT''"
    and uri: "request_uri bytes \<noteq> []" and first: "hd (request_uri bytes) \<noteq> CHR '':''"
    and ver: "request_version bytes \<noteq> []"
  shows "\<exists>pr' sv'.
     ParsedRequest_parse (Some ParsedRequest_create) (Some b) buflen (Some t) (m, sv) =
       Some (0, Some pr', m, sv')
     \<and> host pr' = Some (takeWhile (\<lambda>c. c \<noteq> CHR '':'') (request_uri bytes))
     \<and> takeWhile (\<lambda>c. c \<noteq> CHR '':'') (request_uri bytes) \<noteq> []
     \<and> port pr' = (if drop 1 (dropWhile (\<lambda>c. c \<noteq> CHR '':'') (request_uri bytes)) = [] then None
                   else Some (drop 1 (dropWhile (\<lambda>c. c \<noteq> CHR '':'') (request_uri bytes))))
     \<and> port pr' \<noteq> Some []"
proof -
  let ?s = "parse_spec ParsedRequest_create (takeWhile (\<lambda>c. c \<noteq> NUL) bytes)"
  let ?u = "request_uri bytes"
  obtain sv' where run:
    "ParsedRequest_parse (Some ParsedRequest_create) (Some b) buflen (Some t) (m, sv) =
       Some (fst ?s, Some (snd ?s), m, sv')"
    using parse_eq[OF pk lo hi fresh] by blast
  have lne: "request_line bytes \<noteq> []"
    using meth by (auto simp: request_method_def tok_of_def)
  have s: "?s = (0, connect_fields (ParsedRequest_create\<lparr>buf := Some (request_line bytes),
       method_r := Some ''CONNECT'', version := Some (request_version bytes)\<rparr>) ?u)"
    using lne meth uri ver
    by (simp add: parse_spec_def Let_def request_line_def request_method_def
        request_uri_def request_version_def)
  have nd: "hd ?u \<notin> set '':''" using first by simp
  have tk: "tok_of '':'' ?u = takeWhile (\<lambda>c. c \<noteq> CHR '':'') ?u"
    and rs: "rest_of '':'' ?u = drop 1 (dropWhile (\<lambda>c. c \<noteq> CHR '':'') ?u)"
    and ne: "tok_of '':'' ?u \<noteq> []"
    using tok_of_starts[OF uri nd] by simp_all
  let ?pr = "snd ?s"
  have h: "host ?pr = Some (takeWhile (\<lambda>c. c \<noteq> CHR '':'') ?u)"
    unfolding s using ne tk by (simp add: connect_fields_def Let_def ParsedRequest_create_def)
  have p: "port ?pr = (if drop 1 (dropWhile (\<lambda>c. c \<noteq> CHR '':'') ?u) = [] then None
                   else Some (drop 1 (dropWhile (\<lambda>c. c \<noteq> CHR '':'') ?u)))"
    unfolding s using rs by (simp add: connect_fields_def Let_def ParsedRequest_create_def)
  have hne: "takeWhile (\<lambda>c. c \<noteq> CHR '':'') ?u \<noteq> []" using ne tk by simp
  have pne: "port ?pr \<noteq> Some []" unfolding p by simp
  have "fst ?s = 0" unfolding s by simp
  with run h p hne pne show ?thesis by (intro exI[of _ ?pr] exI[of _ sv']) simp
qed

theorem connect_parse_witness:
  "peek_n [0 \<mapsto> ''CONNECT example.com:443 HTTP/1.1''] (0, 0) (nat 32) =
      Some ''CONNECT example.com:443 HTTP/1.1''
   \<and> request_method ''CONNECT example.com:443 HTTP/1.1'' = ''CONNECT''
   \<and> request_uri ''CONNECT example.com:443 HTTP/1.1'' = ''example.com:443''
   \<and> request_version ''CONNECT example.com:443 HTTP/1.1'' = ''HTTP/1.1''
   \<and> (\<exists>pr' sv'.
        ParsedRequest_parse (Some ParsedRequest_create) (Some (0, 0)) 32 (Some 1)
          ([0 \<mapsto> ''CONNECT example.com:443 HTTP/1.1''], (0, 0)) =
        Some (0, Some pr', [0 \<mapsto> ''CONNECT example.com:443 HTTP/1.1''], sv')
        \<and> host pr' = Some ''example.com'' \<and> port pr' = Some ''443'')"
proof -
  let ?b = "''CONNECT example.com:443 HTTP/1.1''"
  have e: "request_method ?b = ''CONNECT''" "request_uri ?b = ''example.com:443''"
    "request_version ?b = ''HTTP/1.1''"
    by (simp_all add: request_method_def request_uri_def request_version_def request_line_def
        tok_of_def rest_of_def NUL_def CR_def LF_def)
  have pk: "peek_n [0 \<mapsto> ?b] (0, 0) (nat 32) = Some ?b" by (simp add: peek_n_def)
  have t: "takeWhile (\<lambda>c. c \<noteq> CHR '':'') ''example.com:443'' = ''example.com''"
    "drop 1 (dropWhile (\<lambda>c. c \<noteq> CHR '':'') ''example.com:443'') = ''443''" by simp_all
  have f: "hd (request_uri ?b) \<noteq> CHR '':''" unfolding e by simp
  from connect_parse[OF pk _ _ _ e(1) _ f, of 1 "(0, 0)"] e t
  obtain pr' sv' where
    "ParsedRequest_parse (Some ParsedRequest_create) (Some (0, 0)) 32 (Some 1)
          ([0 \<mapsto> ?b], (0, 0)) = Some (0, Some pr', [0 \<mapsto> ?b], sv')"
    "host pr' = Some ''example.com''" "port pr' = Some ''443''"
    by auto
  then show ?thesis using e pk by blast
qed

text \<open>
  Claim C10. Whatever \<^verbatim>\<open>ParsedRequest_parse\<close> returns, the memory that existed before
  the call, the caller's buffer included, holds the same bytes afterwards: the only block
  written is the one \<^verbatim>\<open>malloc\<close> returned, a block distinct from every live one, and
  it is freed before the return.
\<close>

theorem parse_leaves_memory:
  assumes run: "ParsedRequest_parse parse buf_p buflen temp_alloc (m, sv) = Some (rc, parse', m', sv')"
    and fresh: "\<forall>t. temp_alloc = Some t \<longrightarrow> m t = None"
  shows "m' = m"
proof (cases "\<exists>pr b t. parse = Some pr \<and> buf_p = Some b \<and> temp_alloc = Some t \<and> 4 \<le> buflen")
  case False
  then show ?thesis using run
    by (auto simp: ParsedRequest_parse_def split: option.splits if_splits)
next
  case True
  then obtain pr b t where a: "parse = Some pr" "buf_p = Some b" "temp_alloc = Some t" "4 \<le> buflen"
    by blast
  have hi: "buflen < 2147483647" using run a by (auto simp: ParsedRequest_parse_def split: if_splits)
  obtain bytes where pk: "peek_n m b (nat buflen) = Some bytes"
    using run a hi by (cases "peek_n m b (nat buflen)") (auto simp: ParsedRequest_parse_def)
  have "m t = None" using fresh a by simp
  from parse_eq[OF pk a(4) hi this, of pr sv] run a show ?thesis by auto
qed

theorem parse_leaves_memory_witness:
  "ParsedRequest_parse (Some ParsedRequest_create) (Some (0, 0)) 22 (Some 1)
     ([0 \<mapsto> ''GET http://h:8080/x  V''], (0, 0)) =
   Some (0,
         Some \<lparr>method_r = Some ''GET'', protocol = None, host = Some ''h'',
               port = Some ''8080'', path = Some ''/x'', version = Some '' V'',
               buf = Some ''GET http://h:8080/x  V''\<rparr>,
         [0 \<mapsto> ''GET http://h:8080/x  V''], (1, 22))
   \<and> [0 \<mapsto> ''GET http://h:8080/x  V''] (1::nat) = None"
proof -
  have r: "ParsedRequest_parse (Some ParsedRequest_create) (Some (0, 0)) 22 (Some 1)
     ([0 \<mapsto> ''GET http://h:8080/x  V''], (0, 0)) =
   Some (0,
         Some \<lparr>method_r = Some ''GET'', protocol = None, host = Some ''h'',
               port = Some ''8080'', path = Some ''/x'', version = Some '' V'',
               buf = Some ''GET http://h:8080/x  V''\<rparr>,
         [0 \<mapsto> ''GET http://h:8080/x  V''], (1, 22))"
    by (simp add: parse_eval)
  have f: "\<forall>t. Some (1::nat) = Some t \<longrightarrow> [0 \<mapsto> ''GET http://h:8080/x  V''] t = None"
    by simp
  from parse_leaves_memory[OF r f] r show ?thesis by simp
qed

section \<open>Properties of the task queue\<close>

lemma c_rem_mod: "0 \<le> a \<Longrightarrow> 0 < b \<Longrightarrow> c_rem a b = Some (a mod b)"
  by (simp add: c_rem_def sgn_if)

lemma slot_distinct:
  fixes h c :: int
  assumes "0 \<le> i" "i < j" "j < c"
  shows "(h + i) mod c \<noteq> (h + j) mod c"
proof
  assume "(h + i) mod c = (h + j) mod c"
  then have "c dvd (h + j) - (h + i)" using mod_eq_dvd_iff by metis
  then have "c dvd j - i" by simp
  moreover have "0 < j - i" "j - i < c" using assms by auto
  ultimately show False using zdvd_not_zless by blast
qed

lemma enqueue_inv:
  assumes "queue_inv q" "enqueue_task fd q = Ret q'"
  shows "queue_inv q' \<and> contents q' = contents q @ [fd] \<and> q_capacity q' = q_capacity q"
proof -
  from assms(2) have ne: "q_size q \<noteq> q_capacity q"
    by (auto simp: enqueue_task_def split: if_splits)
  with assms(1) have lt: "q_size q < q_capacity q" and s0: "0 \<le> q_size q" and cpos: "0 < q_capacity q"
    by (auto simp: queue_inv_def)
  with assms(1) obtain arr where arr: "sockets q = Some arr" "int (length arr) = q_capacity q"
    and h: "0 \<le> q_head q" "q_head q < q_capacity q"
    and t: "q_tail q = (q_head q + q_size q) mod q_capacity q"
    by (auto simp: queue_inv_def)
  have tb: "0 \<le> q_tail q" "q_tail q < q_capacity q" using t cpos by auto
  have cr: "c_rem (q_tail q + 1) (q_capacity q) = Some ((q_tail q + 1) mod q_capacity q)"
    using tb cpos by (intro c_rem_mod) auto
  have q': "q' = q\<lparr>sockets := Some (arr[nat (q_tail q) := fd]),
                         q_tail := (q_tail q + 1) mod q_capacity q, q_size := q_size q + 1\<rparr>"
    using assms(2) ne arr tb cr by (simp add: enqueue_task_def)
  have t': "(q_tail q + 1) mod q_capacity q = (q_head q + (q_size q + 1)) mod q_capacity q"
    unfolding t by (simp add: mod_add_left_eq add.assoc)
  have inv: "queue_inv q'"
    unfolding q' using lt s0 cpos arr h t' by (simp add: queue_inv_def)
  have old: "\<And>i. i < nat (q_size q) \<Longrightarrow>
      arr[nat (q_tail q) := fd] ! nat ((q_head q + int i) mod q_capacity q)
      = arr ! nat ((q_head q + int i) mod q_capacity q)"
  proof -
    fix i assume i: "i < nat (q_size q)"
    have "(q_head q + int i) mod q_capacity q \<noteq> (q_head q + q_size q) mod q_capacity q"
      using i lt by (intro slot_distinct) auto
    moreover have "0 \<le> (q_head q + int i) mod q_capacity q" using cpos by simp
    ultimately have "nat ((q_head q + int i) mod q_capacity q) \<noteq> nat (q_tail q)"
      using tb t by (simp add: nat_eq_iff)
    then show "arr[nat (q_tail q) := fd] ! nat ((q_head q + int i) mod q_capacity q)
      = arr ! nat ((q_head q + int i) mod q_capacity q)" by simp
  qed
  have new: "arr[nat (q_tail q) := fd] ! nat ((q_head q + int (nat (q_size q))) mod q_capacity q) = fd"
    using s0 t tb arr by simp
  have "nat (q_size q + 1) = Suc (nat (q_size q))" using s0 by simp
  then have "contents q' = contents q @ [fd]"
    unfolding q' contents_def using arr old new by simp
  moreover have "q_capacity q' = q_capacity q" unfolding q' by simp
  ultimately show ?thesis using inv by simp
qed

lemma dequeue_inv:
  assumes "queue_inv q" "dequeue_task running q = Ret (fd, q')"
  shows "queue_inv q' \<and> q_capacity q' = q_capacity q \<and>
    (if q_size q = 0 then q' = q \<and> fd = - 1 else contents q = fd # contents q')"
proof (cases "q_size q = 0")
  case True
  then show ?thesis using assms by (auto simp: dequeue_task_def split: if_splits)
next
  case False
  with assms(1) have s0: "0 < q_size q" and cpos: "0 < q_capacity q"
    by (auto simp: queue_inv_def)
  with assms(1) obtain arr where arr: "sockets q = Some arr" "int (length arr) = q_capacity q"
    and h: "0 \<le> q_head q" "q_head q < q_capacity q"
    and t: "q_tail q = (q_head q + q_size q) mod q_capacity q"
    and le: "q_size q \<le> q_capacity q"
    by (auto simp: queue_inv_def)
  have cr: "c_rem (q_head q + 1) (q_capacity q) = Some ((q_head q + 1) mod q_capacity q)"
    using h cpos by (intro c_rem_mod) auto
  have fd: "fd = arr ! nat (q_head q)"
    and q': "q' = q\<lparr>q_head := (q_head q + 1) mod q_capacity q, q_size := q_size q - 1\<rparr>"
    using assms(2) False arr h cr by (simp_all add: dequeue_task_def)
  have t': "q_tail q = ((q_head q + 1) mod q_capacity q + (q_size q - 1)) mod q_capacity q"
    unfolding t by (simp add: mod_add_left_eq)
  have inv: "queue_inv q'"
    unfolding q' using s0 le cpos arr t' by (simp add: queue_inv_def)
  obtain n where n: "nat (q_size q) = Suc n" "nat (q_size q - 1) = n"
    using s0 by (cases "nat (q_size q)") auto
  have shift: "\<And>i. ((q_head q + 1) mod q_capacity q + int i) mod q_capacity q
        = (q_head q + int (Suc i)) mod q_capacity q"
  proof -
    fix i
    have "((q_head q + 1) mod q_capacity q + int i) mod q_capacity q
        = ((q_head q + 1) + int i) mod q_capacity q" by (rule mod_add_left_eq)
    then show "((q_head q + 1) mod q_capacity q + int i) mod q_capacity q
        = (q_head q + int (Suc i)) mod q_capacity q" by (simp add: ac_simps)
  qed
  have "[0..<Suc n] = 0 # map Suc [0..<n]"
    by (simp add: upt_conv_Cons map_Suc_upt del: upt_Suc)
  then have "contents q = arr ! nat (q_head q mod q_capacity q)
       # map (\<lambda>i. arr ! nat ((q_head q + int (Suc i)) mod q_capacity q)) [0..<n]"
    unfolding contents_def using arr n by (simp add: comp_def del: upt_Suc)
  moreover have "contents q' = map (\<lambda>i. arr ! nat ((q_head q + int (Suc i)) mod q_capacity q)) [0..<n]"
    unfolding q' contents_def using arr n shift by simp
  moreover have "q_head q mod q_capacity q = q_head q" using h by simp
  ultimately have "contents q = fd # contents q'" using fd by simp
  moreover have "q_capacity q' = q_capacity q" unfolding q' by simp
  ultimately show ?thesis using inv False by simp
qed

lemma enqueue_defined:
  assumes "queue_inv q"
  shows "enqueue_task fd q \<noteq> UB"
proof (cases "q_size q = q_capacity q")
  case True then show ?thesis by (simp add: enqueue_task_def)
next
  case False
  with assms have cpos: "0 < q_capacity q" by (auto simp: queue_inv_def)
  with assms obtain arr where arr: "sockets q = Some arr" "int (length arr) = q_capacity q"
    and t: "q_tail q = (q_head q + q_size q) mod q_capacity q"
    by (auto simp: queue_inv_def)
  have tb: "0 \<le> q_tail q" "q_tail q < q_capacity q" using t cpos by auto
  have "c_rem (q_tail q + 1) (q_capacity q) = Some ((q_tail q + 1) mod q_capacity q)"
    using tb cpos by (intro c_rem_mod) auto
  then show ?thesis using False arr tb by (simp add: enqueue_task_def)
qed

lemma dequeue_defined:
  assumes "queue_inv q"
  shows "dequeue_task running q \<noteq> UB"
proof (cases "q_size q = 0")
  case True then show ?thesis by (simp add: dequeue_task_def)
next
  case False
  with assms have cpos: "0 < q_capacity q" by (auto simp: queue_inv_def)
  with assms obtain arr where arr: "sockets q = Some arr" "int (length arr) = q_capacity q"
    and h: "0 \<le> q_head q" "q_head q < q_capacity q"
    by (auto simp: queue_inv_def)
  have "c_rem (q_head q + 1) (q_capacity q) = Some ((q_head q + 1) mod q_capacity q)"
    using h cpos by (intro c_rem_mod) auto
  then show ?thesis using False arr h by (simp add: dequeue_task_def)
qed

lemma run_queue_fifo:
  assumes "queue_inv q"
  shows "run_queue ops q \<noteq> UB \<and>
    (\<forall>outs q'. run_queue ops q = Ret (outs, q') \<longrightarrow>
        queue_inv q' \<and> q_capacity q' = q_capacity q \<and>
        outs @ contents q' = contents q @ enqueued ops)"
  using assms
proof (induction ops arbitrary: q)
  case Nil
  then show ?case by simp
next
  case (Cons op ops)
  show ?case
  proof (cases op)
    case (Enqueue fd)
    show ?thesis
    proof (cases "enqueue_task fd q")
      case Waits then show ?thesis using Enqueue by simp
    next
      case UB
      then show ?thesis using enqueue_defined[OF Cons.prems] by simp
    next
      case (Ret q1)
      from enqueue_inv[OF Cons.prems Ret] have i1: "queue_inv q1"
        and c1: "contents q1 = contents q @ [fd]" "q_capacity q1 = q_capacity q"
        by auto
      from Cons.IH[OF i1, of] show ?thesis using Enqueue Ret c1 by simp
    qed
  next
    case (Dequeue r)
    show ?thesis
    proof (cases "dequeue_task r q")
      case Waits then show ?thesis using Dequeue by simp
    next
      case UB
      then show ?thesis using dequeue_defined[OF Cons.prems] by simp
    next
      case (Ret p)
      obtain fd q1 where p: "p = (fd, q1)" by (cases p)
      from dequeue_inv[OF Cons.prems Ret[unfolded p]] have i1: "queue_inv q1"
        and c1: "if q_size q = 0 then q1 = q \<and> fd = - 1 else contents q = fd # contents q1"
        and k1: "q_capacity q1 = q_capacity q"
        by auto
      from Cons.IH[OF i1] have nub: "run_queue ops q1 \<noteq> UB"
        and rest: "\<And>outs q'. run_queue ops q1 = Ret (outs, q') \<Longrightarrow>
            queue_inv q' \<and> q_capacity q' = q_capacity q1 \<and>
            outs @ contents q' = contents q1 @ enqueued ops"
        by blast+
      show ?thesis
      proof (cases "run_queue ops q1")
        case Waits
        then show ?thesis using Dequeue Ret p by simp
      next
        case UB
        then show ?thesis using nub by simp
      next
        case (Ret x)
        obtain outs q2 where x: "x = (outs, q2)" by (cases x)
        from rest[OF Ret[unfolded x]] have r2: "queue_inv q2" "q_capacity q2 = q_capacity q1"
          "outs @ contents q2 = contents q1 @ enqueued ops" by auto
        have run: "run_queue (op # ops) q = Ret (if q_size q = 0 then outs else fd # outs, q2)"
          using Dequeue \<open>dequeue_task r q = Ret p\<close> p Ret x by simp
        show ?thesis
        proof (cases "q_size q = 0")
          case True
          then show ?thesis using run r2 c1 k1 Dequeue by simp
        next
          case False
          then show ?thesis using run r2 c1 k1 Dequeue by simp
        qed
      qed
    qed
  qed
qed

lemma init_task_queue_inv:
  "int (length arr) = cap \<Longrightarrow> queue_inv (init_task_queue cap (Some arr))"
  by (auto simp: queue_inv_def init_task_queue_def)

text \<open>
  Claim C8. For every history of enqueue and dequeue operations on a queue created by
  \<^verbatim>\<open>init_task_queue\<close> (its array allocated), no operation is undefined, the sockets
  returned by the dequeues followed by the sockets still queued are exactly the enqueued
  sockets in the order of their insertion (FIFO), and the size stays between 0 and the
  capacity.
\<close>

theorem task_queue_fifo:
  assumes "int (length arr) = cap"
  shows "run_queue ops (init_task_queue cap (Some arr)) \<noteq> UB \<and>
    (\<forall>outs q. run_queue ops (init_task_queue cap (Some arr)) = Ret (outs, q) \<longrightarrow>
        outs @ contents q = enqueued ops \<and> 0 \<le> q_size q \<and> q_size q \<le> q_capacity q \<and>
        q_capacity q = cap)"
proof -
  have i: "queue_inv (init_task_queue cap (Some arr))"
    using assms by (rule init_task_queue_inv)
  have c: "contents (init_task_queue cap (Some arr)) = []"
    by (simp add: contents_def init_task_queue_def)
  have k: "q_capacity (init_task_queue cap (Some arr)) = cap"
    by (simp add: init_task_queue_def)
  from run_queue_fifo[OF i, of ops] have
    nub: "run_queue ops (init_task_queue cap (Some arr)) \<noteq> UB"
    and rest: "\<And>outs q. run_queue ops (init_task_queue cap (Some arr)) = Ret (outs, q) \<Longrightarrow>
        queue_inv q \<and> q_capacity q = cap \<and> outs @ contents q = enqueued ops"
    unfolding c k by auto
  have "\<And>q. queue_inv q \<Longrightarrow> 0 \<le> q_size q \<and> q_size q \<le> q_capacity q"
    by (simp add: queue_inv_def)
  with nub rest show ?thesis by blast
qed

theorem task_queue_fifo_witness:
  "int (length [0, 0 :: int]) = 2 \<and>
   run_queue [Enqueue 5, Enqueue 7, Dequeue True, Enqueue 9, Dequeue False]
     (init_task_queue 2 (Some [0, 0])) =
   Ret ([5, 7], \<lparr>sockets = Some [9, 7], q_capacity = 2, q_size = 1, q_head = 0, q_tail = 1\<rparr>) \<and>
   [5, 7] @ contents \<lparr>sockets = Some [9, 7], q_capacity = 2, q_size = 1, q_head = 0, q_tail = 1\<rparr>
     = enqueued [Enqueue 5, Enqueue 7, Dequeue True, Enqueue 9, Dequeue False]"
proof -
  have l: "int (length [0, 0 :: int]) = 2" by simp
  have r: "run_queue [Enqueue 5, Enqueue 7, Dequeue True, Enqueue 9, Dequeue False]
     (init_task_queue 2 (Some [0, 0])) =
   Ret ([5, 7], \<lparr>sockets = Some [9, 7], q_capacity = 2, q_size = 1, q_head = 0, q_tail = 1\<rparr>)"
    by (simp add: init_task_queue_def enqueue_task_def dequeue_task_def c_rem_def)
  from task_queue_fifo[OF l, of "[Enqueue 5, Enqueue 7, Dequeue True, Enqueue 9, Dequeue False]"] r l
  show ?thesis by simp
qed

section \<open>Properties of the cache\<close>

subsection \<open>Lists of nodes and the links that represent them\<close>

lemma first_of_simps [simp]: "first_of [] = None" "first_of (x # xs) = Some x"
  by (simp_all add: first_of_def)

lemma succ_in_Cons: "succ_in (a # xs) b = (if b = a then first_of xs else succ_in xs b)"
  by (cases xs) auto

lemma succ_in_notin: "a \<notin> set xs \<Longrightarrow> succ_in xs a = None"
  by (induction xs) (auto simp: succ_in_Cons)

lemma succ_in_mid:
  "a \<notin> set xs \<Longrightarrow> succ_in (xs @ a # ys) a = first_of ys"
  by (induction xs) (auto simp: succ_in_Cons)

lemma first_of_append: "first_of (xs @ ys) = (if xs = [] then first_of ys else first_of xs)"
  by (cases xs) auto

lemma succ_in_remove:
  assumes "distinct (xs @ a # ys)" "b \<in> set (xs @ ys)"
  shows "succ_in (xs @ ys) b =
     (if xs \<noteq> [] \<and> b = last xs then first_of ys else succ_in (xs @ a # ys) b)"
  using assms
proof (induction xs)
  case Nil
  then show ?case by (auto simp: succ_in_Cons)
next
  case (Cons x xs)
  show ?case
  proof (cases "xs = []")
    case True
    then show ?thesis using Cons.prems by (auto simp: succ_in_Cons)
  next
    case False
    then show ?thesis using Cons by (auto simp: succ_in_Cons first_of_append)
  qed
qed

lemma succ_in_snoc:
  assumes "a \<notin> set xs" "b \<in> set xs" "distinct xs"
  shows "succ_in (xs @ [a]) b = (if b = last xs then Some a else succ_in xs b)"
  using assms
proof (induction xs)
  case Nil
  then show ?case by simp
next
  case (Cons x xs)
  then show ?case by (cases "xs = []") (auto simp: succ_in_Cons first_of_append)
qed

lemma linked_cong:
  assumes "\<And>a. a \<in> set xs \<Longrightarrow> map_option fld (nd' a) = map_option fld (nd a)"
  shows "linked fld nd' st xs = linked fld nd st xs"
proof -
  have "\<And>a. a \<in> set xs \<Longrightarrow>
      (case nd' a of None \<Rightarrow> False | Some n \<Rightarrow> fld n = succ_in xs a)
      = (case nd a of None \<Rightarrow> False | Some n \<Rightarrow> fld n = succ_in xs a)"
  proof -
    fix a assume "a \<in> set xs"
    from assms[OF this] show "(case nd' a of None \<Rightarrow> False | Some n \<Rightarrow> fld n = succ_in xs a)
      = (case nd a of None \<Rightarrow> False | Some n \<Rightarrow> fld n = succ_in xs a)"
      by (cases "nd' a"; cases "nd a") auto
  qed
  then show ?thesis by (simp add: linked_def)
qed

lemma linked_node:
  "linked fld nd st xs \<Longrightarrow> a \<in> set xs \<Longrightarrow> \<exists>n. nd a = Some n \<and> fld n = succ_in xs a"
  by (fastforce simp: linked_def split: option.splits)

lemma linked_remove:
  assumes l: "linked fld nd st (xs @ a # ys)" and na: "nd a = Some n"
    and upd: "\<And>b. b \<in> set (xs @ ys) \<Longrightarrow>
        (case nd' b of None \<Rightarrow> False
         | Some n' \<Rightarrow> fld n' = (if xs \<noteq> [] \<and> b = last xs then fld n else fld (the (nd b))))"
  shows "linked fld nd' (if xs = [] then fld n else st) (xs @ ys)"
proof -
  from l have d: "distinct (xs @ a # ys)" and st: "st = first_of (xs @ a # ys)"
    by (simp_all add: linked_def)
  have fa: "fld n = first_of ys"
    using linked_node[OF l, of a] na d by (simp add: succ_in_mid)
  have start: "(if xs = [] then fld n else st) = first_of (xs @ ys)"
    using fa st by (simp add: first_of_append)
  have each: "\<And>b. b \<in> set (xs @ ys) \<Longrightarrow>
      (case nd' b of None \<Rightarrow> False | Some n' \<Rightarrow> fld n' = succ_in (xs @ ys) b)"
  proof -
    fix b assume b: "b \<in> set (xs @ ys)"
    then have "b \<in> set (xs @ a # ys)" by auto
    from linked_node[OF l this] obtain nb where nb: "nd b = Some nb"
      "fld nb = succ_in (xs @ a # ys) b" by blast
    from upd[OF b] obtain n' where n': "nd' b = Some n'"
      "fld n' = (if xs \<noteq> [] \<and> b = last xs then fld n else fld (the (nd b)))"
      by (auto split: option.splits)
    show "case nd' b of None \<Rightarrow> False | Some n' \<Rightarrow> fld n' = succ_in (xs @ ys) b"
      using n' nb fa succ_in_remove[OF d b] by simp
  qed
  show ?thesis unfolding linked_def start using d each by auto
qed

lemma linked_Cons:
  assumes l: "linked fld nd st xs" and a: "a \<notin> set xs" and na: "nd' a = Some n" "fld n = st"
    and same: "\<And>b. b \<in> set xs \<Longrightarrow> map_option fld (nd' b) = map_option fld (nd b)"
  shows "linked fld nd' (Some a) (a # xs)"
proof -
  from l have d: "distinct xs" and st: "st = first_of xs" by (simp_all add: linked_def)
  have "\<And>b. b \<in> set xs \<Longrightarrow> (case nd' b of None \<Rightarrow> False | Some n' \<Rightarrow> fld n' = succ_in (a # xs) b)"
  proof -
    fix b assume b: "b \<in> set xs"
    from linked_node[OF l b] obtain nb where "nd b = Some nb" "fld nb = succ_in xs b" by blast
    moreover have "b \<noteq> a" using a b by auto
    ultimately show "case nd' b of None \<Rightarrow> False | Some n' \<Rightarrow> fld n' = succ_in (a # xs) b"
      using same[OF b] by (auto simp: succ_in_Cons split: option.splits)
  qed
  then show ?thesis using d a na st by (auto simp: linked_def succ_in_Cons)
qed

lemma linked_snoc:
  assumes l: "linked fld nd st xs" and a: "a \<notin> set xs" and na: "nd' a = Some n" "fld n = None"
    and upd: "\<And>b. b \<in> set xs \<Longrightarrow>
        (case nd' b of None \<Rightarrow> False
         | Some n' \<Rightarrow> fld n' = (if b = last xs then Some a else fld (the (nd b))))"
  shows "linked fld nd' (if xs = [] then Some a else st) (xs @ [a])"
proof -
  from l have d: "distinct xs" and st: "st = first_of xs" by (simp_all add: linked_def)
  have start: "(if xs = [] then Some a else st) = first_of (xs @ [a])"
    using st by (simp add: first_of_append)
  have each: "\<And>b. b \<in> set xs \<Longrightarrow>
      (case nd' b of None \<Rightarrow> False | Some n' \<Rightarrow> fld n' = succ_in (xs @ [a]) b)"
  proof -
    fix b assume b: "b \<in> set xs"
    from linked_node[OF l b] obtain nb where nb: "nd b = Some nb" "fld nb = succ_in xs b" by blast
    from upd[OF b] obtain n' where n': "nd' b = Some n'"
      "fld n' = (if b = last xs then Some a else fld (the (nd b)))"
      by (auto split: option.splits)
    show "case nd' b of None \<Rightarrow> False | Some n' \<Rightarrow> fld n' = succ_in (xs @ [a]) b"
      using n' nb succ_in_snoc[OF a b d] by simp
  qed
  have "succ_in (xs @ [a]) a = None" using succ_in_mid[OF a, of "[]"] by simp
  then show ?thesis unfolding linked_def start using d a na each by auto
qed

lemma linked_tl:
  assumes "linked fld nd st (x # xs)"
  shows "\<exists>n. st = Some x \<and> nd x = Some n \<and> linked fld nd (fld n) xs"
proof -
  from assms have d: "distinct (x # xs)" and st: "st = Some x" by (simp_all add: linked_def)
  from linked_node[OF assms, of x] obtain n where n: "nd x = Some n" "fld n = first_of xs"
    by (auto simp: succ_in_Cons)
  have "\<And>b. b \<in> set xs \<Longrightarrow> (case nd b of None \<Rightarrow> False | Some n' \<Rightarrow> fld n' = succ_in xs b)"
  proof -
    fix b assume b: "b \<in> set xs"
    then have "b \<in> set (x # xs)" by simp
    from linked_node[OF assms this] obtain nb where "nd b = Some nb" "fld nb = succ_in (x # xs) b"
      by blast
    moreover have "b \<noteq> x" using d b by auto
    ultimately show "case nd b of None \<Rightarrow> False | Some n' \<Rightarrow> fld n' = succ_in xs b"
      by (simp add: succ_in_Cons)
  qed
  then have "linked fld nd (fld n) xs" using d n by (auto simp: linked_def)
  with st n show ?thesis by blast
qed

subsection \<open>Taking a node out of the recency list and putting it in front\<close>

lemma relinked_refl: "relinked s s"
  by (simp add: relinked_def)

lemma relinked_trans: "relinked s s1 \<Longrightarrow> relinked s1 s2 \<Longrightarrow> relinked s s2"
  by (simp add: relinked_def)

lemma relinked_dom: "relinked s s' \<Longrightarrow> dom (nodes s') = dom (nodes s)"
proof -
  assume r: "relinked s s'"
  have "\<And>b. (nodes s' b = None) = (nodes s b = None)"
  proof -
    fix b
    from r have "map_option payload (nodes s' b) = map_option payload (nodes s b)"
      by (simp add: relinked_def)
    then show "(nodes s' b = None) = (nodes s b = None)"
      by (cases "nodes s' b"; cases "nodes s b") auto
  qed
  then show ?thesis by (auto simp: dom_def)
qed

lemma relinked_payload:
  "relinked s s' \<Longrightarrow> nodes s b = Some n \<Longrightarrow>
     \<exists>n'. nodes s' b = Some n' \<and> key n' = key n \<and> data n' = data n
        \<and> data_size n' = data_size n \<and> h_next n' = h_next n"
proof -
  assume r: "relinked s s'" and n: "nodes s b = Some n"
  from r have "map_option payload (nodes s' b) = map_option payload (nodes s b)"
    by (simp add: relinked_def)
  with n show ?thesis by (cases "nodes s' b") (auto simp: payload_def)
qed

lemma seq_Ok [simp]: "seq (Ok x) f = f x"
  by (simp add: seq_def)

lemma seq_Fault [simp]: "seq Fault f = Fault"
  by (simp add: seq_def)

lemma load_Some: "nodes s a = Some n \<Longrightarrow> load s a = Ok n"
  by (simp add: load_def)

lemma detach_node_spec:
  assumes f: "linked next_node (nodes s) (head (cache s)) (xs @ a # ys)"
    and b: "linked prev_node (nodes s) (tail (cache s)) (rev (xs @ a # ys))"
  shows "\<exists>s'. detach_node a s = Ok s' \<and> relinked s s'
      \<and> linked next_node (nodes s') (head (cache s')) (xs @ ys)
      \<and> linked prev_node (nodes s') (tail (cache s')) (rev (xs @ ys))"
proof -
  from f have d: "distinct (xs @ a # ys)" by (simp add: linked_def)
  from linked_node[OF f, of a] obtain n where n: "nodes s a = Some n"
    and nn: "next_node n = first_of ys" using d by (auto simp: succ_in_mid)
  have b': "linked prev_node (nodes s) (tail (cache s)) (rev ys @ a # rev xs)" using b by simp
  from linked_node[OF b', of a] n have pn: "prev_node n = first_of (rev xs)"
    using d by (auto simp: succ_in_mid)
  \<comment> \<open>first statement\<close>
  define s1 where "s1 = (case prev_node n of
       Some p \<Rightarrow> put_node p ((the (nodes s p))\<lparr>next_node := next_node n\<rparr>) s
     | None \<Rightarrow> s\<lparr>cache := (cache s)\<lparr>head := next_node n\<rparr>\<rparr>)"
  have plive: "\<And>p. prev_node n = Some p \<Longrightarrow> p \<in> set xs \<and> p = last xs \<and> xs \<noteq> [] \<and> (\<exists>m. nodes s p = Some m)"
  proof -
    fix p assume "prev_node n = Some p"
    with pn have x: "xs \<noteq> []" "p = last xs" by (cases xs rule: rev_cases; simp)+
    then have "p \<in> set (xs @ a # ys)" by simp
    from linked_node[OF f this] x show "p \<in> set xs \<and> p = last xs \<and> xs \<noteq> [] \<and> (\<exists>m. nodes s p = Some m)"
      by auto
  qed
  have step1: "seq (case prev_node n of
            Some p \<Rightarrow> seq (load s p) (\<lambda>pn. Ok (put_node p (pn\<lparr>next_node := next_node n\<rparr>) s))
          | None \<Rightarrow> Ok (s\<lparr>cache := (cache s)\<lparr>head := next_node n\<rparr>\<rparr>)) k = k s1" for k :: "pstate \<Rightarrow> pstate outcome"
    using plive by (cases "prev_node n") (auto simp: s1_def load_def)
  have n1: "nodes s1 a = Some n"
    using plive n d by (cases "prev_node n") (auto simp: s1_def put_node_def)
  have r1: "relinked s s1"
    using plive by (cases "prev_node n") (auto simp: s1_def put_node_def relinked_def payload_def)
  have t1: "tail (cache s1) = tail (cache s)"
    by (cases "prev_node n") (auto simp: s1_def put_node_def)
  have f1: "linked next_node (nodes s1) (head (cache s1)) (xs @ ys)"
  proof -
    have "linked next_node (nodes s1) (if xs = [] then next_node n else head (cache s)) (xs @ ys)"
    proof (rule linked_remove[OF f n])
      fix c assume c: "c \<in> set (xs @ ys)"
      then have "c \<in> set (xs @ a # ys)" by auto
      from linked_node[OF f this] obtain m where m: "nodes s c = Some m" by blast
      show "case nodes s1 c of None \<Rightarrow> False
         | Some n' \<Rightarrow> next_node n' = (if xs \<noteq> [] \<and> c = last xs then next_node n
                                      else next_node (the (nodes s c)))"
        using plive m pn by (cases "prev_node n"; cases xs rule: rev_cases)
           (auto simp: s1_def put_node_def)
    qed
    moreover have "head (cache s1) = (if xs = [] then next_node n else head (cache s))"
      using pn by (cases xs rule: rev_cases) (auto simp: s1_def put_node_def)
    ultimately show ?thesis by simp
  qed
  have b1: "linked prev_node (nodes s1) (tail (cache s1)) (rev ys @ a # rev xs)"
  proof -
    have "linked prev_node (nodes s1) (tail (cache s)) (rev ys @ a # rev xs)
        = linked prev_node (nodes s) (tail (cache s)) (rev ys @ a # rev xs)"
      using plive by (intro linked_cong, cases "prev_node n") (auto simp: s1_def put_node_def)
    with b' t1 show ?thesis by simp
  qed
  \<comment> \<open>second statement\<close>
  define s2 where "s2 = (case next_node n of
       Some x \<Rightarrow> put_node x ((the (nodes s1 x))\<lparr>prev_node := prev_node n\<rparr>) s1
     | None \<Rightarrow> s1\<lparr>cache := (cache s1)\<lparr>tail := prev_node n\<rparr>\<rparr>)"
  have xlive: "\<And>x. next_node n = Some x \<Longrightarrow> x \<in> set ys \<and> x = hd ys \<and> ys \<noteq> [] \<and> (\<exists>m. nodes s1 x = Some m)"
  proof -
    fix x assume "next_node n = Some x"
    with nn have y: "ys \<noteq> []" "x = hd ys" by (cases ys; simp)+
    then have "x \<in> set (xs @ ys)" by simp
    from linked_node[OF f1 this] y show "x \<in> set ys \<and> x = hd ys \<and> ys \<noteq> [] \<and> (\<exists>m. nodes s1 x = Some m)"
      by auto
  qed
  have step2: "(case next_node n of
       Some x \<Rightarrow> seq (load s1 x) (\<lambda>xn. Ok (put_node x (xn\<lparr>prev_node := prev_node n\<rparr>) s1))
     | None \<Rightarrow> Ok (s1\<lparr>cache := (cache s1)\<lparr>tail := prev_node n\<rparr>\<rparr>)) = Ok s2"
    using xlive by (cases "next_node n") (auto simp: s2_def load_def)
  have run: "detach_node a s = Ok s2"
    unfolding detach_node_def by (simp only: load_Some[OF n] load_Some[OF n1] seq_Ok step1 step2)
  have r2: "relinked s1 s2"
    using xlive by (cases "next_node n") (auto simp: s2_def put_node_def relinked_def payload_def)
  have h2: "head (cache s2) = head (cache s1)"
    by (cases "next_node n") (auto simp: s2_def put_node_def)
  have b2: "linked prev_node (nodes s2) (tail (cache s2)) (rev (xs @ ys))"
  proof -
    have "linked prev_node (nodes s2) (if rev ys = [] then prev_node n else tail (cache s1)) (rev ys @ rev xs)"
    proof (rule linked_remove[OF b1 n1])
      fix c assume c: "c \<in> set (rev ys @ rev xs)"
      then have "c \<in> set (rev ys @ a # rev xs)" by auto
      from linked_node[OF b1 this] obtain m where m: "nodes s1 c = Some m" by blast
      show "case nodes s2 c of None \<Rightarrow> False
         | Some n' \<Rightarrow> prev_node n' = (if rev ys \<noteq> [] \<and> c = last (rev ys) then prev_node n
                                      else prev_node (the (nodes s1 c)))"
        using xlive m nn by (cases "next_node n"; cases ys)
           (auto simp: s2_def put_node_def last_rev)
    qed
    moreover have "tail (cache s2) = (if rev ys = [] then prev_node n else tail (cache s1))"
      using nn by (cases ys) (auto simp: s2_def put_node_def)
    ultimately show ?thesis by simp
  qed
  have f2: "linked next_node (nodes s2) (head (cache s2)) (xs @ ys)"
  proof -
    have "linked next_node (nodes s2) (head (cache s1)) (xs @ ys)
        = linked next_node (nodes s1) (head (cache s1)) (xs @ ys)"
      using xlive by (intro linked_cong, cases "next_node n") (auto simp: s2_def put_node_def)
    with f1 h2 show ?thesis by simp
  qed
  from run relinked_trans[OF r1 r2] f2 b2 show ?thesis by blast
qed

lemma attach_to_front_spec:
  assumes f: "linked next_node (nodes s) (head (cache s)) lru"
    and b: "linked prev_node (nodes s) (tail (cache s)) (rev lru)"
    and a: "a \<notin> set lru" and n: "nodes s a = Some n"
  shows "\<exists>s'. attach_to_front a s = Ok s' \<and> relinked s s'
      \<and> linked next_node (nodes s') (head (cache s')) (a # lru)
      \<and> linked prev_node (nodes s') (tail (cache s')) (rev lru @ [a])"
proof -
  from f have hd: "head (cache s) = first_of lru" by (simp add: linked_def)
  from b have tl: "tail (cache s) = first_of (rev lru)" by (simp add: linked_def)
  define n0 where "n0 = n\<lparr>next_node := head (cache s), prev_node := None\<rparr>"
  show ?thesis
  proof (cases lru)
    case Nil
    define s' where "s' = (put_node a n0 s)\<lparr>cache := (cache s)\<lparr>head := Some a, tail := Some a\<rparr>\<rparr>"
    have run: "attach_to_front a s = Ok s'"
      using n hd tl Nil by (simp add: attach_to_front_def load_def put_node_def Let_def s'_def n0_def)
    have r: "relinked s s'" using n by (auto simp: s'_def put_node_def relinked_def payload_def n0_def)
    have "linked next_node (nodes s') (Some a) (a # lru)"
      by (rule linked_Cons[OF f a, where n = n0])
         (auto simp: s'_def put_node_def n0_def hd Nil)
    moreover have "linked prev_node (nodes s') (if rev lru = [] then Some a else tail (cache s)) (rev lru @ [a])"
      by (rule linked_snoc[OF b, where n = n0]) (auto simp: s'_def put_node_def n0_def Nil)
    ultimately show ?thesis using run r Nil by (auto simp: s'_def)
  next
    case (Cons h t)
    then have hin: "h \<in> set lru" and ha: "h \<noteq> a" using a by auto
    from linked_node[OF f hin] obtain hn where hn: "nodes s h = Some hn" by blast
    define s' where "s' = (put_node h (hn\<lparr>prev_node := Some a\<rparr>) (put_node a n0 s))
        \<lparr>cache := (cache s)\<lparr>head := Some a\<rparr>\<rparr>"
    have "rev lru \<noteq> []" using Cons by simp
    then have tne: "tail (cache s) \<noteq> None" unfolding tl by (cases "rev lru") auto
    have run: "attach_to_front a s = Ok s'"
      using n hd tne Cons hn ha
      by (auto simp: attach_to_front_def load_def put_node_def Let_def s'_def n0_def)
    have r: "relinked s s'"
      using n hn by (auto simp: s'_def put_node_def relinked_def payload_def n0_def)
    have "linked next_node (nodes s') (Some a) (a # lru)"
    proof (rule linked_Cons[OF f a, where n = n0])
      show "nodes s' a = Some n0" using ha by (simp add: s'_def put_node_def)
      show "next_node n0 = head (cache s)" by (simp add: n0_def)
      fix c assume "c \<in> set lru"
      then show "map_option next_node (nodes s' c) = map_option next_node (nodes s c)"
        using a hn by (auto simp: s'_def put_node_def)
    qed
    moreover have "linked prev_node (nodes s') (if rev lru = [] then Some a else tail (cache s)) (rev lru @ [a])"
    proof (rule linked_snoc[OF b, where n = n0])
      show "a \<notin> set (rev lru)" using a by simp
      show "nodes s' a = Some n0" using ha by (simp add: s'_def put_node_def)
      show "prev_node n0 = None" by (simp add: n0_def)
      fix c assume c: "c \<in> set (rev lru)"
      then have "c \<in> set lru" by simp
      from linked_node[OF f this] obtain m where m: "nodes s c = Some m" by blast
      show "case nodes s' c of None \<Rightarrow> False
         | Some n' \<Rightarrow> prev_node n' = (if c = last (rev lru) then Some a else prev_node (the (nodes s c)))"
        using c a m hn Cons by (auto simp: s'_def put_node_def)
    qed
    ultimately show ?thesis using run r Cons by (auto simp: s'_def put_node_def)
  qed
qed

subsection \<open>Lookup\<close>

lemma relinked_bucket: "relinked s s' \<Longrightarrow> bucket_of s' k = bucket_of s k"
  by (simp add: relinked_def bucket_of_def)

lemma relinked_chain_ok:
  assumes r: "relinked s s'"
  shows "chain_ok s' h ch = chain_ok s h ch"
proof -
  have pl: "\<And>b. map_option payload (nodes s' b) = map_option payload (nodes s b)"
    using r by (simp add: relinked_def)
  have hn: "\<And>b. map_option h_next (nodes s' b) = map_option h_next (nodes s b)"
  proof -
    fix b from pl[of b] show "map_option h_next (nodes s' b) = map_option h_next (nodes s b)"
      by (cases "nodes s' b"; cases "nodes s b") (auto simp: payload_def)
  qed
  have l: "linked h_next (nodes s') (table (cache s') ! h) ch = linked h_next (nodes s) (table (cache s) ! h) ch"
    using r hn by (simp add: relinked_def linked_cong[of ch h_next "nodes s'" "nodes s"])
  have k: "\<And>a. (case nodes s' a of None \<Rightarrow> False
                 | Some n \<Rightarrow> (case key n of None \<Rightarrow> False | Some k \<Rightarrow> bucket_of s' k = Ok h))
            = (case nodes s a of None \<Rightarrow> False
                 | Some n \<Rightarrow> (case key n of None \<Rightarrow> False | Some k \<Rightarrow> bucket_of s k = Ok h))"
  proof -
    fix a from pl[of a] show "(case nodes s' a of None \<Rightarrow> False
                 | Some n \<Rightarrow> (case key n of None \<Rightarrow> False | Some k \<Rightarrow> bucket_of s' k = Ok h))
            = (case nodes s a of None \<Rightarrow> False
                 | Some n \<Rightarrow> (case key n of None \<Rightarrow> False | Some k \<Rightarrow> bucket_of s k = Ok h))"
      by (cases "nodes s' a"; cases "nodes s a")
         (auto simp: payload_def relinked_bucket[OF r] split: option.splits)
  qed
  show ?thesis unfolding chain_ok_def l k ..
qed

lemma relinked_total_size:
  assumes r: "relinked s s'"
  shows "total_size s' xs = total_size s xs"
proof -
  have "\<And>a. (case nodes s' a of None \<Rightarrow> 0 | Some n \<Rightarrow> unat (data_size n))
      = (case nodes s a of None \<Rightarrow> 0 | Some n \<Rightarrow> unat (data_size n))"
  proof -
    fix a
    from r have "map_option payload (nodes s' a) = map_option payload (nodes s a)"
      by (simp add: relinked_def)
    then show "(case nodes s' a of None \<Rightarrow> 0 | Some n \<Rightarrow> unat (data_size n))
      = (case nodes s a of None \<Rightarrow> 0 | Some n \<Rightarrow> unat (data_size n))"
      by (cases "nodes s' a"; cases "nodes s a") (auto simp: payload_def)
  qed
  then show ?thesis by (simp add: total_size_def)
qed

lemma cache_abs_relinked:
  assumes c: "cache_abs s lru chs" and r: "relinked s s'"
    and f: "linked next_node (nodes s') (head (cache s')) lru'"
    and b: "linked prev_node (nodes s') (tail (cache s')) (rev lru')"
    and st: "set lru' = set lru" and ts: "total_size s lru' = total_size s lru"
  shows "cache_abs s' lru' chs"
proof -
  have "dom (nodes s') = set lru'" using relinked_dom[OF r] c st by (simp add: cache_abs_def)
  moreover have "\<forall>h < length chs. chain_ok s' h (chs ! h)"
    using c relinked_chain_ok[OF r] by (simp add: cache_abs_def)
  moreover have "unat (size_c (cache s')) = total_size s' lru'"
    using c r ts relinked_total_size[OF r] by (simp add: cache_abs_def relinked_def)
  ultimately show ?thesis using c r f b st by (simp add: cache_abs_def relinked_def)
qed

lemma cache_abs_log: "cache_abs (log_message l s) lru chs = cache_abs s lru chs"
  unfolding cache_abs_def chain_ok_def bucket_of_def total_size_def log_message_def
  by (simp cong: option.case_cong)

lemma find_node_spec:
  assumes "linked h_next (nodes s) st ch"
    and "\<forall>a \<in> set ch. case nodes s a of None \<Rightarrow> False | Some n \<Rightarrow> key n \<noteq> None"
  shows "find_node k st s = Some (Ok (first_with_key s k ch))"
  using assms
proof (induction ch arbitrary: st)
  case Nil
  then have "st = None" by (simp add: linked_def)
  then show ?case by (subst find_node.simps) (simp add: first_with_key_def)
next
  case (Cons x xs)
  from linked_tl[OF Cons.prems(1)] obtain n where st: "st = Some x" and n: "nodes s x = Some n"
    and l: "linked h_next (nodes s) (h_next n) xs" by blast
  from Cons.prems(2) n obtain nk where nk: "key n = Some nk" by auto
  have ih: "find_node k (h_next n) s = Some (Ok (first_with_key s k xs))"
    using Cons.IH[OF l] Cons.prems(2) by simp
  show ?case
    by (subst find_node.simps) (simp add: st n nk ih first_with_key_def)
qed

lemma total_size_move:
  "total_size s (a # xs @ ys) = total_size s (xs @ a # ys)"
  by (simp add: total_size_def)

lemma first_with_key_in:
  "first_with_key s k ch = Some a \<Longrightarrow> a \<in> set ch \<and> (\<exists>n. nodes s a = Some n \<and> key n = Some k)"
proof -
  assume "first_with_key s k ch = Some a"
  then obtain r where "filter (\<lambda>a. case nodes s a of None \<Rightarrow> False | Some n \<Rightarrow> key n = Some k) ch = a # r"
    by (auto simp: first_with_key_def first_of_def split: list.splits)
  then have "a \<in> set (filter (\<lambda>a. case nodes s a of None \<Rightarrow> False | Some n \<Rightarrow> key n = Some k) ch)"
    by simp
  then show ?thesis by (auto split: option.splits)
qed

lemma bucket_in_range:
  assumes "0 < table_size (cache s)" "table_size (cache s) < 2 ^ 31"
  shows "\<exists>h. bucket_of s k = Ok h \<and> h < nat (table_size (cache s))"
proof -
  let ?d = "word_of_int (table_size (cache s)) :: size_t"
  have u: "unat ?d = nat (table_size (cache s))"
    using assms by (simp add: unat_eq_nat_uint uint_word_of_int take_bit_int_eq_self)
  then have "?d \<noteq> 0" using assms by (metis unat_0 nat_0_iff not_less)
  moreover have "unat (hash k mod ?d) < nat (table_size (cache s))"
    using u assms by (simp add: unat_mod_distrib)
  ultimately show ?thesis by (simp add: bucket_of_def Let_def)
qed

lemma get_from_cache_spec:
  assumes c: "cache_abs s lru chs"
  shows "\<exists>h. bucket_of s k = Ok h \<and> h < length chs \<and>
     (case first_with_key s k (chs ! h) of
        None \<Rightarrow> get_from_cache k s =
                 Some (Ok (None, log_message (Log ''INFO'' ''Cache MISS for request key.'') s))
      | Some a \<Rightarrow> a \<in> set lru \<and>
          (\<exists>s'. get_from_cache k s = Some (Ok (Some a, s'))
              \<and> cache_abs s' (a # remove1 a lru) chs
              \<and> relinked s (s'\<lparr>log_lines := log_lines s\<rparr>)))"
proof -
  from c have ts: "0 < table_size (cache s)" "table_size (cache s) < 2 ^ 31"
    and len: "length (table (cache s)) = nat (table_size (cache s))" "length chs = length (table (cache s))"
    by (simp_all add: cache_abs_def)
  from bucket_in_range[OF ts, of k] obtain h where h: "bucket_of s k = Ok h" "h < length chs"
    using len by auto
  from c h have ok: "chain_ok s h (chs ! h)" by (simp add: cache_abs_def)
  then have l: "linked h_next (nodes s) (table (cache s) ! h) (chs ! h)"
    and keys: "\<forall>a \<in> set (chs ! h). case nodes s a of None \<Rightarrow> False | Some n \<Rightarrow> key n \<noteq> None"
    by (auto simp: chain_ok_def split: option.splits)
  have fn: "find_node k (table (cache s) ! h) s = Some (Ok (first_with_key s k (chs ! h)))"
    by (rule find_node_spec[OF l keys])
  have sl: "seq (bucket_of s k) (slot s) = Ok (table (cache s) ! h)"
    using h len by (simp add: slot_def)
  show ?thesis
  proof (cases "first_with_key s k (chs ! h)")
    case None
    then show ?thesis using h sl fn by (auto simp: get_from_cache_def)
  next
    case (Some a)
    from first_with_key_in[OF Some] have "a \<in> set (chs ! h)" by simp
    then have "a \<in> set (concat chs)" using h(2) by (auto simp: set_concat)
    moreover from c have "set (concat chs) = set lru" by (simp add: cache_abs_def)
    ultimately have ain: "a \<in> set lru" by blast
    then obtain xs ys where sp: "lru = xs @ a # ys" by (meson split_list)
    from c have d: "distinct lru" by (simp add: cache_abs_def linked_def)
    have rm: "remove1 a lru = xs @ ys" using d sp by (simp add: remove1_append)
    from c sp have f: "linked next_node (nodes s) (head (cache s)) (xs @ a # ys)"
      and b: "linked prev_node (nodes s) (tail (cache s)) (rev (xs @ a # ys))"
      by (simp_all add: cache_abs_def)
    from detach_node_spec[OF f b] obtain s1 where s1: "detach_node a s = Ok s1" "relinked s s1"
      "linked next_node (nodes s1) (head (cache s1)) (xs @ ys)"
      "linked prev_node (nodes s1) (tail (cache s1)) (rev (xs @ ys))" by blast
    from linked_node[OF f, of a] obtain n where "nodes s a = Some n" by auto
    from relinked_payload[OF s1(2) this] obtain n1 where n1: "nodes s1 a = Some n1" by blast
    have "a \<notin> set (xs @ ys)" using d sp by auto
    from attach_to_front_spec[OF s1(3) s1(4) this n1] obtain s2 where
      s2: "attach_to_front a s1 = Ok s2" "relinked s1 s2"
      "linked next_node (nodes s2) (head (cache s2)) (a # xs @ ys)"
      "linked prev_node (nodes s2) (tail (cache s2)) (rev (xs @ ys) @ [a])" by blast
    let ?s' = "log_message (Log ''INFO'' ''Cache HIT for request key.'') s2"
    have run: "get_from_cache k s = Some (Ok (Some a, ?s'))"
      using sl fn Some s1(1) s2(1) by (simp add: get_from_cache_def)
    have r: "relinked s s2" by (rule relinked_trans[OF s1(2) s2(2)])
    have "cache_abs s2 (a # xs @ ys) chs"
      by (rule cache_abs_relinked[OF c r s2(3)]) (use s2(4) sp in \<open>auto simp: total_size_move\<close>)
    then have "cache_abs ?s' (a # remove1 a lru) chs" by (simp add: cache_abs_log rm)
    moreover have "relinked s (?s'\<lparr>log_lines := log_lines s\<rparr>)"
      using r by (simp add: relinked_def log_message_def)
    ultimately show ?thesis using h Some ain run by auto
  qed
qed

subsection \<open>Eviction\<close>

lemma unlink_loop_spec:
  assumes "linked h_next (nodes s) cur (pre @ a # post)"
    and "case prv of None \<Rightarrow> h < length (table (cache s)) | Some p \<Rightarrow> nodes s p \<noteq> None"
  shows "unlink_loop a h cur prv s = Some (Ok (
     if pre = [] then
       (case prv of
          None \<Rightarrow> set_slot h (first_of post) s
        | Some p \<Rightarrow> put_node p ((the (nodes s p))\<lparr>h_next := first_of post\<rparr>) s)
     else put_node (last pre) ((the (nodes s (last pre)))\<lparr>h_next := first_of post\<rparr>) s))"
  using assms
proof (induction pre arbitrary: cur prv)
  case Nil
  then have l: "linked h_next (nodes s) cur (a # post)" by simp
  from linked_tl[OF l] obtain n where c: "cur = Some a" and n: "nodes s a = Some n"
    and l': "linked h_next (nodes s) (h_next n) post" by blast
  have hn: "h_next n = first_of post" using l' by (simp add: linked_def)
  show ?case
  proof (cases prv)
    case None
    then show ?thesis using Nil.prems(2) c n hn
      by (subst unlink_loop.simps) (simp add: slot_def)
  next
    case (Some p)
    then obtain pn where "nodes s p = Some pn" using Nil.prems(2) by auto
    then show ?thesis using Some c n hn
      by (subst unlink_loop.simps) (simp add: load_def)
  qed
next
  case (Cons x pre)
  then have l: "linked h_next (nodes s) cur (x # (pre @ a # post))" by simp
  from linked_tl[OF l] obtain n where c: "cur = Some x" and n: "nodes s x = Some n"
    and l': "linked h_next (nodes s) (h_next n) (pre @ a # post)" by blast
  from l have "distinct (x # (pre @ a # post))" by (simp add: linked_def)
  then have xa: "x \<noteq> a" by auto
  have p: "case Some x of None \<Rightarrow> h < length (table (cache s)) | Some p \<Rightarrow> nodes s p \<noteq> None"
    using n by simp
  have ih: "unlink_loop a h (h_next n) (Some x) s = Some (Ok (
     if pre = [] then put_node x ((the (nodes s x))\<lparr>h_next := first_of post\<rparr>) s
     else put_node (last pre) ((the (nodes s (last pre)))\<lparr>h_next := first_of post\<rparr>) s))"
    using Cons.IH[OF l' p] by simp
  show ?case
    by (subst unlink_loop.simps) (simp add: c n xa ih)
qed

lemma set_concat_nth: "set (concat xss) = (\<Union>i < length xss. set (xss ! i))"
proof -
  have "set xss = (\<lambda>i. xss ! i) ` {..<length xss}"
    by (auto simp: in_set_conv_nth)
  then show ?thesis by (simp add: set_concat)
qed

lemma total_size_append: "total_size s (xs @ ys) = total_size s xs + total_size s ys"
  by (simp add: total_size_def)

lemma total_size_cong:
  assumes "\<And>b. b \<in> set xs \<Longrightarrow> map_option data_size (nodes s' b) = map_option data_size (nodes s b)"
  shows "total_size s' xs = total_size s xs"
proof -
  have "\<And>b. b \<in> set xs \<Longrightarrow> (case nodes s' b of None \<Rightarrow> 0 | Some n \<Rightarrow> unat (data_size n))
      = (case nodes s b of None \<Rightarrow> 0 | Some n \<Rightarrow> unat (data_size n))"
  proof -
    fix b assume "b \<in> set xs"
    from assms[OF this] show "(case nodes s' b of None \<Rightarrow> 0 | Some n \<Rightarrow> unat (data_size n))
      = (case nodes s b of None \<Rightarrow> 0 | Some n \<Rightarrow> unat (data_size n))"
      by (cases "nodes s' b"; cases "nodes s b") auto
  qed
  then show ?thesis unfolding total_size_def by (intro arg_cong[where f = sum_list] map_cong) auto
qed

lemma chain_ok_cong:
  assumes t: "table (cache s') ! h = table (cache s) ! h"
    and ts: "table_size (cache s') = table_size (cache s)"
    and nd: "\<And>b. b \<in> set ch \<Longrightarrow> map_option (\<lambda>n. (h_next n, key n)) (nodes s' b)
                                  = map_option (\<lambda>n. (h_next n, key n)) (nodes s b)"
  shows "chain_ok s' h ch = chain_ok s h ch"
proof -
  have hn: "\<And>b. b \<in> set ch \<Longrightarrow> map_option h_next (nodes s' b) = map_option h_next (nodes s b)"
  proof -
    fix b assume "b \<in> set ch"
    from nd[OF this] show "map_option h_next (nodes s' b) = map_option h_next (nodes s b)"
      by (cases "nodes s' b"; cases "nodes s b") auto
  qed
  have l: "linked h_next (nodes s') (table (cache s') ! h) ch = linked h_next (nodes s) (table (cache s) ! h) ch"
    unfolding t by (rule linked_cong[OF hn])
  have bu: "\<And>k. bucket_of s' k = bucket_of s k" by (simp add: bucket_of_def ts)
  have k: "\<And>a. a \<in> set ch \<Longrightarrow> (case nodes s' a of None \<Rightarrow> False
                 | Some n \<Rightarrow> (case key n of None \<Rightarrow> False | Some k \<Rightarrow> bucket_of s' k = Ok h))
            = (case nodes s a of None \<Rightarrow> False
                 | Some n \<Rightarrow> (case key n of None \<Rightarrow> False | Some k \<Rightarrow> bucket_of s k = Ok h))"
  proof -
    fix a assume "a \<in> set ch"
    from nd[OF this] show "(case nodes s' a of None \<Rightarrow> False
                 | Some n \<Rightarrow> (case key n of None \<Rightarrow> False | Some k \<Rightarrow> bucket_of s' k = Ok h))
            = (case nodes s a of None \<Rightarrow> False
                 | Some n \<Rightarrow> (case key n of None \<Rightarrow> False | Some k \<Rightarrow> bucket_of s k = Ok h))"
      by (cases "nodes s' a"; cases "nodes s a") (auto simp: bu split: option.splits)
  qed
  show ?thesis unfolding chain_ok_def l using k by auto
qed

lemma chain_ok_bucket:
  "chain_ok s h ch \<Longrightarrow> a \<in> set ch \<Longrightarrow>
     \<exists>n k. nodes s a = Some n \<and> key n = Some k \<and> bucket_of s k = Ok h"
  by (fastforce simp: chain_ok_def split: option.splits)

lemma chains_disjoint:
  assumes "chain_ok s h ch" "chain_ok s h' ch'" "a \<in> set ch" "a \<in> set ch'"
  shows "h = h'"
proof -
  from chain_ok_bucket[OF assms(1,3)] chain_ok_bucket[OF assms(2,4)] show ?thesis by auto
qed

lemma evict_lru_spec:
  assumes c: "cache_abs s (xs @ [a]) chs"
  shows "\<exists>s' n h pre post. evict_lru s = Some (Ok s') \<and> nodes s a = Some n \<and> h < length chs
      \<and> chs ! h = pre @ a # post
      \<and> cache_abs s' xs (chs[h := pre @ post])
      \<and> size_c (cache s') = size_c (cache s) - data_size n \<and> data_size n \<le> size_c (cache s)
      \<and> nodes s' a = None
      \<and> (\<forall>b. b \<noteq> a \<longrightarrow> map_option (\<lambda>n. (key n, data n, data_size n)) (nodes s' b)
                        = map_option (\<lambda>n. (key n, data n, data_size n)) (nodes s b))
      \<and> table_size (cache s') = table_size (cache s)
      \<and> log_lines s' = log_lines s @ [LogSize ''INFO'' ''Evicting item. Cache size: %zu bytes''
                                         (size_c (cache s) - data_size n)]
      \<and> capacity (cache s') = capacity (cache s)
      \<and> g_max_element_size s' = g_max_element_size s"
proof -
  let ?lru = "xs @ [a]"
  from c have f: "linked next_node (nodes s) (head (cache s)) (xs @ a # [])"
    and b: "linked prev_node (nodes s) (tail (cache s)) (rev (xs @ a # []))"
    and dm: "dom (nodes s) = set ?lru"
    and ts: "0 < table_size (cache s)" "table_size (cache s) < 2 ^ 31"
    and len: "length (table (cache s)) = nat (table_size (cache s))" "length chs = length (table (cache s))"
    and ch: "\<And>h. h < length chs \<Longrightarrow> chain_ok s h (chs ! h)"
    and sc: "set (concat chs) = set ?lru"
    and sz: "unat (size_c (cache s)) = total_size s ?lru"
    and cap: "size_c (cache s) \<le> capacity (cache s)"
    by (simp_all add: cache_abs_def)
  from f have d: "distinct ?lru" by (simp add: linked_def)
  then have axs: "a \<notin> set xs" by simp
  have tl: "tail (cache s) = Some a" using b by (simp add: linked_def)
  from detach_node_spec[OF f b] obtain s1 where s1: "detach_node a s = Ok s1" and r1: "relinked s s1"
    and f1: "linked next_node (nodes s1) (head (cache s1)) xs"
    and b1: "linked prev_node (nodes s1) (tail (cache s1)) (rev xs)" by auto
  from linked_node[OF f, of a] obtain n where n: "nodes s a = Some n" by auto
  from relinked_payload[OF r1 n] obtain n1 where n1: "nodes s1 a = Some n1"
    "key n1 = key n" "data_size n1 = data_size n" "h_next n1 = h_next n" by blast
  have "a \<in> set (concat chs)" using sc by simp
  then obtain h where h: "h < length chs" "a \<in> set (chs ! h)"
    unfolding set_concat_nth by auto
  from chain_ok_bucket[OF ch[OF h(1)] h(2)] n obtain k where k: "key n = Some k" "bucket_of s k = Ok h"
    by auto
  obtain pre post where sp: "chs ! h = pre @ a # post" using h(2) by (meson split_list)
  have ok1: "\<And>h'. h' < length chs \<Longrightarrow> chain_ok s1 h' (chs ! h')"
    using ch relinked_chain_ok[OF r1] by simp
  have t1: "table (cache s1) = table (cache s)" "table_size (cache s1) = table_size (cache s)"
    using r1 by (simp_all add: relinked_def)
  have hl: "h < length (table (cache s1))" using h(1) len t1 by simp
  have l1: "linked h_next (nodes s1) (table (cache s1) ! h) (pre @ a # post)"
    using ok1[OF h(1)] sp by (simp add: chain_ok_def)
  then have dch: "distinct (pre @ a # post)" by (simp add: linked_def)
  define s2 where "s2 = (if pre = [] then set_slot h (first_of post) s1
      else put_node (last pre) ((the (nodes s1 (last pre)))\<lparr>h_next := first_of post\<rparr>) s1)"
  have ul: "unlink_loop a h (table (cache s1) ! h) None s1 = Some (Ok s2)"
    using unlink_loop_spec[OF l1, where prv = None and h = h] hl by (simp add: s2_def)
  have lp: "pre \<noteq> [] \<Longrightarrow> last pre \<noteq> a \<and> last pre \<in> set (chs ! h) \<and> (\<exists>m. nodes s1 (last pre) = Some m)"
  proof -
    assume p: "pre \<noteq> []"
    then have i: "last pre \<in> set (pre @ a # post)" by simp
    from linked_node[OF l1 i] obtain m where "nodes s1 (last pre) = Some m" by blast
    moreover have "last pre \<noteq> a" using dch p by (metis disjoint_iff distinct_append last_in_set list.set_intros(1))
    ultimately show ?thesis using i sp by auto
  qed
  have n2: "nodes s2 a = Some n1"
    using n1 lp by (auto simp: s2_def set_slot_def put_node_def)
  have F3: "\<And>b. pre = [] \<or> b \<noteq> last pre \<Longrightarrow> nodes s2 b = nodes s1 b"
    by (auto simp: s2_def set_slot_def put_node_def)
  have F4: "pre \<noteq> [] \<Longrightarrow> nodes s2 (last pre) = Some ((the (nodes s1 (last pre)))\<lparr>h_next := first_of post\<rparr>)"
    by (auto simp: s2_def put_node_def)
  have F1: "\<And>b. map_option (\<lambda>n. (next_node n, prev_node n, key n, data_size n, data n)) (nodes s2 b)
       = map_option (\<lambda>n. (next_node n, prev_node n, key n, data_size n, data n)) (nodes s1 b)"
    using lp by (auto simp: s2_def set_slot_def put_node_def)
  have c2: "head (cache s2) = head (cache s1)" "tail (cache s2) = tail (cache s1)"
    "size_c (cache s2) = size_c (cache s1)" "capacity (cache s2) = capacity (cache s1)"
    "table_size (cache s2) = table_size (cache s1)"
    "table (cache s2) = (if pre = [] then (table (cache s1))[h := first_of post] else table (cache s1))"
    "log_lines s2 = log_lines s1" "g_max_element_size s2 = g_max_element_size s1"
    by (auto simp: s2_def set_slot_def put_node_def)
  define s' where "s' = (log_message
        (LogSize ''INFO'' ''Evicting item. Cache size: %zu bytes'' (size_c (cache s2) - data_size n1))
        (s2\<lparr>cache := (cache s2)\<lparr>size_c := size_c (cache s2) - data_size n1\<rparr>\<rparr>))
      \<lparr>nodes := (nodes s2)(a := None)\<rparr>"
  have pre_run: "seq (detach_node a s) (\<lambda>s1.
                seq (load s1 a) (\<lambda>n.
                case key n of
                  None \<Rightarrow> Fault
                | Some k \<Rightarrow> seq (bucket_of s1 k) (\<lambda>h. seq (slot s1 h) (\<lambda>cur. Ok (s1, h, cur)))))
        = Ok (s1, h, table (cache s1) ! h)"
    using s1 n1 k relinked_bucket[OF r1, of k] hl by (simp add: load_def slot_def)
  have run: "evict_lru s = Some (Ok s')"
    apply (simp only: evict_lru_def tl option.case pre_run outcome.case prod.case ul)
    using n2 apply (simp add: load_def Let_def s'_def log_message_def)
    done
  \<comment> \<open>the state after the eviction\<close>
  have nd': "\<And>b. nodes s' b = (if b = a then None else nodes s2 b)"
    by (simp add: s'_def log_message_def)
  have cs': "head (cache s') = head (cache s1)" "tail (cache s') = tail (cache s1)"
    "size_c (cache s') = size_c (cache s) - data_size n" "capacity (cache s') = capacity (cache s)"
    "table_size (cache s') = table_size (cache s)"
    "table (cache s') = (if pre = [] then (table (cache s))[h := first_of post] else table (cache s))"
    "g_max_element_size s' = g_max_element_size s"
    using c2 r1 n1 by (simp_all add: s'_def log_message_def relinked_def)
  have keep: "\<And>b. b \<noteq> a \<Longrightarrow> map_option (\<lambda>n. (next_node n, prev_node n, key n, data_size n, data n)) (nodes s' b)
       = map_option (\<lambda>n. (next_node n, prev_node n, key n, data_size n, data n)) (nodes s1 b)"
    using F1 by (simp add: nd')
  have "linked next_node (nodes s') (head (cache s1)) xs = linked next_node (nodes s1) (head (cache s1)) xs"
  proof (rule linked_cong)
    fix b assume "b \<in> set xs"
    then have "b \<noteq> a" using axs by auto
    from keep[OF this] show "map_option next_node (nodes s' b) = map_option next_node (nodes s1 b)"
      by (cases "nodes s' b"; cases "nodes s1 b") auto
  qed
  then have f': "linked next_node (nodes s') (head (cache s')) xs" using f1 cs' by simp
  have "linked prev_node (nodes s') (tail (cache s1)) (rev xs) = linked prev_node (nodes s1) (tail (cache s1)) (rev xs)"
  proof (rule linked_cong)
    fix b assume "b \<in> set (rev xs)"
    then have "b \<noteq> a" using axs by auto
    from keep[OF this] show "map_option prev_node (nodes s' b) = map_option prev_node (nodes s1 b)"
      by (cases "nodes s' b"; cases "nodes s1 b") auto
  qed
  then have b': "linked prev_node (nodes s') (tail (cache s')) (rev xs)" using b1 cs' by simp
  have dom1: "dom (nodes s1) = set ?lru" using relinked_dom[OF r1] dm by simp
  have dom2: "dom (nodes s2) = dom (nodes s1)"
  proof -
    have "\<And>b. (nodes s2 b = None) = (nodes s1 b = None)"
    proof -
      fix b from F1[of b] show "(nodes s2 b = None) = (nodes s1 b = None)"
        by (cases "nodes s2 b"; cases "nodes s1 b") auto
    qed
    then show ?thesis by (auto simp: dom_def)
  qed
  have dm': "dom (nodes s') = set xs"
    using dom1 dom2 axs by (auto simp: dom_def nd' split: if_splits)
  \<comment> \<open>the chains\<close>
  have chain_h: "chain_ok s' h (pre @ post)"
  proof -
    have "linked h_next (nodes s') (if pre = [] then h_next n1 else table (cache s1) ! h) (pre @ post)"
    proof (rule linked_remove[OF l1 n1(1)])
      fix b assume bin: "b \<in> set (pre @ post)"
      then have ba: "b \<noteq> a" using dch by auto
      from bin have "b \<in> set (pre @ a # post)" by auto
      from linked_node[OF l1 this] obtain m where m: "nodes s1 b = Some m" by blast
      have hna: "h_next n1 = first_of post"
        using linked_node[OF l1, of a] n1(1) dch by (simp add: succ_in_mid)
      show "case nodes s' b of None \<Rightarrow> False
         | Some n' \<Rightarrow> h_next n' = (if pre \<noteq> [] \<and> b = last pre then h_next n1
                                   else h_next (the (nodes s1 b)))"
      proof (cases "pre \<noteq> [] \<and> b = last pre")
        case True
        then show ?thesis using ba F4 hna by (simp add: nd')
      next
        case False
        then have "nodes s2 b = nodes s1 b" by (intro F3) auto
        then show ?thesis using False ba m by (auto simp: nd')
      qed
    qed
    moreover have "h_next n1 = first_of post"
      using linked_node[OF l1, of a] n1(1) dch by (simp add: succ_in_mid)
    ultimately have l': "linked h_next (nodes s') (table (cache s') ! h) (pre @ post)"
      using cs'(6) t1 hl by (cases "pre = []") auto
    have "\<And>b. b \<in> set (pre @ post) \<Longrightarrow>
        (case nodes s' b of None \<Rightarrow> False
         | Some n \<Rightarrow> (case key n of None \<Rightarrow> False | Some k \<Rightarrow> bucket_of s' k = Ok h))"
    proof -
      fix b assume bin: "b \<in> set (pre @ post)"
      then have ba: "b \<noteq> a" using dch by auto
      from bin have "b \<in> set (chs ! h)" using sp by auto
      from chain_ok_bucket[OF ok1[OF h(1)] this] obtain m kb where
        m: "nodes s1 b = Some m" "key m = Some kb" "bucket_of s1 kb = Ok h" by blast
      have "bucket_of s' kb = bucket_of s1 kb" using cs' t1 by (simp add: bucket_of_def)
      then show "case nodes s' b of None \<Rightarrow> False
         | Some n \<Rightarrow> (case key n of None \<Rightarrow> False | Some k \<Rightarrow> bucket_of s' k = Ok h)"
        using keep[OF ba] m by (cases "nodes s' b") auto
    qed
    with l' show ?thesis by (auto simp: chain_ok_def)
  qed
  have chain_other: "\<And>h'. h' < length chs \<Longrightarrow> h' \<noteq> h \<Longrightarrow> chain_ok s' h' (chs ! h')"
  proof -
    fix h' assume h': "h' < length chs" "h' \<noteq> h"
    have "chain_ok s' h' (chs ! h') = chain_ok s1 h' (chs ! h')"
    proof (rule chain_ok_cong)
      show "table (cache s') ! h' = table (cache s1) ! h'" using cs'(6) t1 h' by auto
      show "table_size (cache s') = table_size (cache s1)" using cs' t1 by simp
      fix b assume bin: "b \<in> set (chs ! h')"
      have ba: "b \<noteq> a" using chains_disjoint[OF ok1[OF h'(1)] ok1[OF h(1)] bin] h(2) h'(2) by auto
      have "pre = [] \<or> b \<noteq> last pre"
        using chains_disjoint[OF ok1[OF h'(1)] ok1[OF h(1)] bin] lp h'(2) by auto
      from F3[OF this] ba show "map_option (\<lambda>n. (h_next n, key n)) (nodes s' b)
          = map_option (\<lambda>n. (h_next n, key n)) (nodes s1 b)" by (simp add: nd')
    qed
    then show "chain_ok s' h' (chs ! h')" using ok1[OF h'(1)] by simp
  qed
  have chains': "\<forall>h' < length (chs[h := pre @ post]). chain_ok s' h' (chs[h := pre @ post] ! h')"
    using chain_h chain_other h(1) by (auto simp: nth_list_update)
  have sc': "set (concat (chs[h := pre @ post])) = set xs"
  proof -
    have other: "\<And>i. i < length chs \<Longrightarrow> i \<noteq> h \<Longrightarrow> a \<notin> set (chs ! i)"
      using chains_disjoint[OF ok1 ok1[OF h(1)] _ h(2)] by blast
    have "set (concat (chs[h := pre @ post])) = (\<Union>i < length chs. set (chs[h := pre @ post] ! i))"
      using set_concat_nth[of "chs[h := pre @ post]"] by simp
    also have "\<dots> = (\<Union>i < length chs. set (chs ! i)) - {a}"
    proof (intro set_eqI iffI)
      fix x assume "x \<in> (\<Union>i < length chs. set (chs[h := pre @ post] ! i))"
      then obtain i where i: "i < length chs" "x \<in> set (chs[h := pre @ post] ! i)" by auto
      show "x \<in> (\<Union>i < length chs. set (chs ! i)) - {a}"
      proof (cases "i = h")
        case True
        then have "x \<in> set (pre @ post)" using i by simp
        then have "x \<in> set (chs ! h)" "x \<noteq> a" using sp dch by auto
        then show ?thesis using h(1) by auto
      next
        case False
        then have "x \<in> set (chs ! i)" using i by simp
        moreover have "x \<noteq> a" using other[OF i(1) False] calculation by auto
        ultimately show ?thesis using i(1) by auto
      qed
    next
      fix x assume "x \<in> (\<Union>i < length chs. set (chs ! i)) - {a}"
      then obtain i where i: "i < length chs" "x \<in> set (chs ! i)" "x \<noteq> a" by auto
      show "x \<in> (\<Union>i < length chs. set (chs[h := pre @ post] ! i))"
      proof (cases "i = h")
        case True
        then have "x \<in> set (pre @ post)" using i sp by auto
        then show ?thesis using h(1) by (auto intro!: bexI[of _ h])
      next
        case False
        then show ?thesis using i by (auto intro!: bexI[of _ i])
      qed
    qed
    also have "\<dots> = set xs"
    proof -
      have "(\<Union>i < length chs. set (chs ! i)) = insert a (set xs)"
        using sc set_concat_nth[of chs] by simp
      then show ?thesis using axs by simp
    qed
    finally show ?thesis .
  qed
  \<comment> \<open>the size\<close>
  have tsx: "total_size s' xs = total_size s xs"
  proof (rule total_size_cong)
    fix b assume "b \<in> set xs"
    then have ba: "b \<noteq> a" using axs by auto
    have "map_option payload (nodes s1 b) = map_option payload (nodes s b)"
      using r1 by (simp add: relinked_def)
    then have "map_option data_size (nodes s1 b) = map_option data_size (nodes s b)"
      by (cases "nodes s1 b"; cases "nodes s b") (auto simp: payload_def)
    moreover from keep[OF ba] have "map_option data_size (nodes s' b) = map_option data_size (nodes s1 b)"
      by (cases "nodes s' b"; cases "nodes s1 b") auto
    ultimately show "map_option data_size (nodes s' b) = map_option data_size (nodes s b)" by simp
  qed
  have tot: "total_size s ?lru = total_size s xs + unat (data_size n)"
    using n by (simp add: total_size_append) (simp add: total_size_def)
  then have dle: "data_size n \<le> size_c (cache s)" using sz by (simp add: word_le_nat_alt)
  then have "unat (size_c (cache s) - data_size n) = unat (size_c (cache s)) - unat (data_size n)"
    by (rule unat_sub)
  then have sz': "unat (size_c (cache s')) = total_size s' xs" using sz tot tsx cs' by simp
  have "size_c (cache s) - data_size n \<le> size_c (cache s)" using dle by (rule word_sub_le)
  then have cap': "size_c (cache s') \<le> capacity (cache s')" using cap cs' by simp
  have abs': "cache_abs s' xs (chs[h := pre @ post])"
    unfolding cache_abs_def using f' b' dm' ts len cs' chains' sc' sz' cap'
    by (auto simp: )
  have gone: "nodes s' a = None" by (simp add: nd')
  have same: "\<forall>b. b \<noteq> a \<longrightarrow> map_option (\<lambda>n. (key n, data n, data_size n)) (nodes s' b)
                        = map_option (\<lambda>n. (key n, data n, data_size n)) (nodes s b)"
  proof (intro allI impI)
    fix b assume ba: "b \<noteq> a"
    have "map_option payload (nodes s1 b) = map_option payload (nodes s b)"
      using r1 by (simp add: relinked_def)
    then have "map_option (\<lambda>n. (key n, data n, data_size n)) (nodes s1 b)
        = map_option (\<lambda>n. (key n, data n, data_size n)) (nodes s b)"
      by (cases "nodes s1 b"; cases "nodes s b") (auto simp: payload_def)
    moreover from keep[OF ba] have "map_option (\<lambda>n. (key n, data n, data_size n)) (nodes s' b)
        = map_option (\<lambda>n. (key n, data n, data_size n)) (nodes s1 b)"
      by (cases "nodes s' b"; cases "nodes s1 b") auto
    ultimately show "map_option (\<lambda>n. (key n, data n, data_size n)) (nodes s' b)
        = map_option (\<lambda>n. (key n, data n, data_size n)) (nodes s b)" by simp
  qed
  have lg: "log_lines s' = log_lines s @ [LogSize ''INFO'' ''Evicting item. Cache size: %zu bytes''
                                         (size_c (cache s) - data_size n)]"
    using c2 r1 n1 by (simp add: s'_def log_message_def relinked_def)
  from run n h(1) sp abs' cs' dle gone same lg show ?thesis by blast
qed

lemma survives_refl: "survives s s"
  by (simp add: survives_def)

lemma survives_trans: "survives s s1 \<Longrightarrow> survives s1 s2 \<Longrightarrow> survives s s2"
  unfolding survives_def by (metis)

lemma evict_lru_survives:
  assumes "nodes s' a = None"
    and "\<forall>b. b \<noteq> a \<longrightarrow> map_option (\<lambda>n. (key n, data n, data_size n)) (nodes s' b)
                        = map_option (\<lambda>n. (key n, data n, data_size n)) (nodes s b)"
  shows "survives s s'"
  unfolding survives_def
proof (intro allI impI)
  fix b m assume m: "nodes s' b = Some m"
  then have "b \<noteq> a" using assms(1) by auto
  with assms(2) have "map_option (\<lambda>n. (key n, data n, data_size n)) (nodes s' b)
                        = map_option (\<lambda>n. (key n, data n, data_size n)) (nodes s b)" by blast
  with m show "\<exists>m0. nodes s b = Some m0 \<and> key m = key m0 \<and> data m = data m0 \<and> data_size m = data_size m0"
    by (cases "nodes s b") auto
qed

lemma cache_abs_empty_size: "cache_abs s [] chs \<Longrightarrow> size_c (cache s) = 0"
  by (simp add: cache_abs_def total_size_def unat_eq_0)

lemma evict_loop_spec:
  assumes "cache_abs s lru chs" and "dsize \<le> capacity (cache s)"
  shows "\<exists>s' lru' chs'. evict_loop dsize s = Some (Ok s') \<and> cache_abs s' lru' chs'
      \<and> \<not> capacity (cache s') < size_c (cache s') + dsize
      \<and> capacity (cache s') = capacity (cache s)
      \<and> g_max_element_size s' = g_max_element_size s
      \<and> table_size (cache s') = table_size (cache s)
      \<and> survives s s'"
  using assms
proof (induction lru arbitrary: s chs rule: rev_induct)
  case Nil
  then have "size_c (cache s) = 0" by (simp add: cache_abs_empty_size)
  then have "\<not> capacity (cache s) < size_c (cache s) + dsize" using Nil.prems(2) by simp
  then have "evict_loop dsize s = Some (Ok s)" by (subst evict_loop.simps) simp
  then show ?case using Nil.prems(1) \<open>\<not> capacity (cache s) < size_c (cache s) + dsize\<close> survives_refl
    by blast
next
  case (snoc a xs)
  show ?case
  proof (cases "capacity (cache s) < size_c (cache s) + dsize")
    case False
    then have "evict_loop dsize s = Some (Ok s)" by (subst evict_loop.simps) simp
    then show ?thesis using snoc.prems(1) False survives_refl by blast
  next
    case True
    from evict_lru_spec[OF snoc.prems(1)] obtain s1 chs1 where
      e: "evict_lru s = Some (Ok s1)" and a1: "cache_abs s1 xs chs1"
      and k: "capacity (cache s1) = capacity (cache s)" "g_max_element_size s1 = g_max_element_size s"
         "table_size (cache s1) = table_size (cache s)"
      and sv: "nodes s1 a = None"
         "\<forall>b. b \<noteq> a \<longrightarrow> map_option (\<lambda>n. (key n, data n, data_size n)) (nodes s1 b)
                        = map_option (\<lambda>n. (key n, data n, data_size n)) (nodes s b)"
      by blast
    have "dsize \<le> capacity (cache s1)" using snoc.prems(2) k by simp
    from snoc.IH[OF a1 this] obtain s' lru' chs' where
      r: "evict_loop dsize s1 = Some (Ok s')" "cache_abs s' lru' chs'"
        "\<not> capacity (cache s') < size_c (cache s') + dsize"
        "capacity (cache s') = capacity (cache s1)"
        "g_max_element_size s' = g_max_element_size s1"
        "table_size (cache s') = table_size (cache s1)"
        "survives s1 s'" by blast
    have "evict_loop dsize s = Some (Ok s')"
      by (subst evict_loop.simps) (simp add: True e r(1))
    moreover have "survives s s'"
      using survives_trans[OF evict_lru_survives[OF sv] r(7)] .
    ultimately show ?thesis using r k by auto
  qed
qed

subsection \<open>Insertion\<close>

lemma linked_same:
  assumes "linked fld nd st xs"
    and "\<And>b. b \<in> set xs \<Longrightarrow> map_option fld (nd' b) = map_option fld (nd b)"
  shows "linked fld nd' st xs"
  using assms(1) linked_cong[of xs fld nd' nd st, OF assms(2)] by simp

lemma insert_node_spec:
  assumes c: "cache_abs s lru chs" and fresh: "nodes s a = None"
    and al: "node_block al = Some a" "key_block al" "data_block al"
    and len: "unat dsize \<le> length dat"
    and room: "\<not> capacity (cache s) < size_c (cache s) + dsize"
    and nowrap: "unat (size_c (cache s)) + unat dsize < 2 ^ 64"
  shows "\<exists>s' h. insert_node k dat dsize al s = Ok s' \<and> bucket_of s k = Ok h \<and> h < length chs
      \<and> cache_abs s' (a # lru) (chs[h := a # chs ! h])
      \<and> (\<exists>n. nodes s' a = Some n \<and> key n = Some k \<and> data n = take (unat dsize) dat \<and> data_size n = dsize)
      \<and> (\<forall>b. b \<noteq> a \<longrightarrow> map_option (\<lambda>n. (key n, data n, data_size n)) (nodes s' b)
                        = map_option (\<lambda>n. (key n, data n, data_size n)) (nodes s b))
      \<and> capacity (cache s') = capacity (cache s)
      \<and> g_max_element_size s' = g_max_element_size s
      \<and> table_size (cache s') = table_size (cache s)"
proof -
  from c have f: "linked next_node (nodes s) (head (cache s)) lru"
    and b: "linked prev_node (nodes s) (tail (cache s)) (rev lru)"
    and dm: "dom (nodes s) = set lru"
    and ts: "0 < table_size (cache s)" "table_size (cache s) < 2 ^ 31"
    and tlen: "length (table (cache s)) = nat (table_size (cache s))" "length chs = length (table (cache s))"
    and ch: "\<And>h. h < length chs \<Longrightarrow> chain_ok s h (chs ! h)"
    and sc: "set (concat chs) = set lru"
    and sz: "unat (size_c (cache s)) = total_size s lru"
    and cap: "size_c (cache s) \<le> capacity (cache s)"
    by (simp_all add: cache_abs_def)
  have alru: "a \<notin> set lru" using fresh dm by auto
  define n where "n = \<lparr>key = Some k, data = take (unat dsize) dat, data_size = dsize,
                     prev_node = None, next_node = None, h_next = None\<rparr>"
  define s1 where "s1 = put_node a n s"
  have nd1: "\<And>b. nodes s1 b = (if b = a then Some n else nodes s b)"
    by (simp add: s1_def put_node_def)
  have c1: "cache s1 = cache s" by (simp add: s1_def put_node_def)
  have f1: "linked next_node (nodes s1) (head (cache s1)) lru"
    unfolding c1 by (rule linked_same[OF f]) (use alru in \<open>auto simp: nd1\<close>)
  have b1: "linked prev_node (nodes s1) (tail (cache s1)) (rev lru)"
    unfolding c1 by (rule linked_same[OF b]) (use alru in \<open>auto simp: nd1\<close>)
  from attach_to_front_spec[OF f1 b1 alru, of n] obtain s2 where
    s2: "attach_to_front a s1 = Ok s2" and r2: "relinked s1 s2"
    and f2: "linked next_node (nodes s2) (head (cache s2)) (a # lru)"
    and b2: "linked prev_node (nodes s2) (tail (cache s2)) (rev lru @ [a])"
    by (auto simp: nd1)
  from bucket_in_range[OF ts, of k] obtain h where h: "bucket_of s k = Ok h" "h < length chs"
    using tlen by auto
  from relinked_payload[OF r2, of a n] obtain n2 where n2: "nodes s2 a = Some n2"
    "key n2 = Some k" "data n2 = take (unat dsize) dat" "data_size n2 = dsize"
    by (auto simp: nd1 n_def)
  have k2: "capacity (cache s2) = capacity (cache s)" "size_c (cache s2) = size_c (cache s)"
    "table_size (cache s2) = table_size (cache s)" "table (cache s2) = table (cache s)"
    "log_lines s2 = log_lines s" "g_max_element_size s2 = g_max_element_size s"
    using r2 by (simp_all add: relinked_def c1 s1_def put_node_def)
  define s' where "s' = log_message
      (LogSize ''INFO'' ''Stored new item. Cache size: %zu bytes'' (size_c (cache s) + dsize))
      (set_slot h (Some a)
        (put_node a (n2\<lparr>h_next := table (cache s) ! h\<rparr>)
          (s2\<lparr>cache := (cache s2)\<lparr>size_c := size_c (cache s) + dsize\<rparr>\<rparr>)))"
  have run: "insert_node k dat dsize al s = Ok s'"
  proof -
    have "insert_node k dat dsize al s =
        seq (attach_to_front a s1) (\<lambda>s2.
               let s3 = s2\<lparr>cache := (cache s2)\<lparr>size_c := size_c (cache s2) + dsize\<rparr>\<rparr>
               in seq (bucket_of s3 k) (\<lambda>h.
                  seq (slot s3 h) (\<lambda>first.
                  seq (load s3 a) (\<lambda>n3.
                  let s4 = put_node a (n3\<lparr>h_next := first\<rparr>) s3;
                      s5 = set_slot h (Some a) s4
                  in Ok (log_message (LogSize ''INFO'' ''Stored new item. Cache size: %zu bytes''
                                        (size_c (cache s5))) s5)))))"
      unfolding insert_node_def s1_def n_def using al len by (simp add: Let_def)
    also have "\<dots> = Ok s'"
    proof -
      have bu3: "\<And>x. bucket_of (s2\<lparr>cache := (cache s2)\<lparr>size_c := x\<rparr>\<rparr>) k = Ok h"
        using h(1) k2 by (simp add: bucket_of_def)
      show ?thesis
        unfolding s2 seq_Ok using h(2) tlen n2 k2
        by (simp add: Let_def bu3 slot_def load_def put_node_def set_slot_def s'_def)
    qed
    finally show ?thesis .
  qed
  have nd': "\<And>b. nodes s' b = (if b = a then Some (n2\<lparr>h_next := table (cache s) ! h\<rparr>) else nodes s2 b)"
    by (simp add: s'_def log_message_def set_slot_def put_node_def)
  have cs': "head (cache s') = head (cache s2)" "tail (cache s') = tail (cache s2)"
    "size_c (cache s') = size_c (cache s) + dsize" "capacity (cache s') = capacity (cache s)"
    "table_size (cache s') = table_size (cache s)"
    "table (cache s') = (table (cache s))[h := Some a]"
    "g_max_element_size s' = g_max_element_size s"
    using k2 by (simp_all add: s'_def log_message_def set_slot_def put_node_def)
  have old: "\<And>b. b \<noteq> a \<Longrightarrow> map_option payload (nodes s' b) = map_option payload (nodes s b)"
  proof -
    fix b assume ba: "b \<noteq> a"
    have "map_option payload (nodes s2 b) = map_option payload (nodes s1 b)"
      using r2 by (simp add: relinked_def)
    then show "map_option payload (nodes s' b) = map_option payload (nodes s b)"
      using ba by (simp add: nd' nd1)
  qed
  have f': "linked next_node (nodes s') (head (cache s')) (a # lru)"
    unfolding cs' by (rule linked_same[OF f2]) (use n2 in \<open>auto simp: nd'\<close>)
  have b': "linked prev_node (nodes s') (tail (cache s')) (rev (a # lru))"
  proof -
    have "linked prev_node (nodes s') (tail (cache s2)) (rev lru @ [a])"
      by (rule linked_same[OF b2]) (use n2 in \<open>auto simp: nd'\<close>)
    then show ?thesis by (simp add: cs')
  qed
  have dm': "dom (nodes s') = set (a # lru)"
  proof -
    have "dom (nodes s2) = dom (nodes s1)" by (rule relinked_dom[OF r2])
    also have "\<dots> = insert a (dom (nodes s))" by (auto simp: nd1 dom_def)
    finally have "dom (nodes s2) = insert a (set lru)" using dm by simp
    moreover have "dom (nodes s') = insert a (dom (nodes s2))" by (auto simp: nd' dom_def)
    ultimately show ?thesis by simp
  qed
  have anot: "\<And>i. i < length chs \<Longrightarrow> a \<notin> set (chs ! i)"
    using sc alru set_concat_nth[of chs] by auto
  have bu': "\<And>x. bucket_of s' x = bucket_of s x" by (simp add: bucket_of_def cs')
  have hl: "h < length (table (cache s))" using h tlen by simp
  have chain_h: "chain_ok s' h (a # chs ! h)"
  proof -
    have "linked h_next (nodes s') (Some a) (a # chs ! h)"
    proof (rule linked_Cons[where n = "n2\<lparr>h_next := table (cache s) ! h\<rparr>" and nd = "nodes s"])
      show "linked h_next (nodes s) (table (cache s) ! h) (chs ! h)"
        using ch[OF h(2)] by (simp add: chain_ok_def)
      show "a \<notin> set (chs ! h)" by (rule anot[OF h(2)])
      show "nodes s' a = Some (n2\<lparr>h_next := table (cache s) ! h\<rparr>)" by (simp add: nd')
      show "h_next (n2\<lparr>h_next := table (cache s) ! h\<rparr>) = table (cache s) ! h" by simp
      fix b assume "b \<in> set (chs ! h)"
      then have "b \<noteq> a" using anot[OF h(2)] by auto
      from old[OF this] show "map_option h_next (nodes s' b) = map_option h_next (nodes s b)"
        by (cases "nodes s' b"; cases "nodes s b") (auto simp: payload_def)
    qed
    moreover have "table (cache s') ! h = Some a" using cs'(6) hl by simp
    moreover have "\<And>b. b \<in> set (a # chs ! h) \<Longrightarrow>
        (case nodes s' b of None \<Rightarrow> False
         | Some n \<Rightarrow> (case key n of None \<Rightarrow> False | Some k \<Rightarrow> bucket_of s' k = Ok h))"
    proof -
      fix b assume bin: "b \<in> set (a # chs ! h)"
      show "case nodes s' b of None \<Rightarrow> False
         | Some n \<Rightarrow> (case key n of None \<Rightarrow> False | Some k \<Rightarrow> bucket_of s' k = Ok h)"
      proof (cases "b = a")
        case True
        then show ?thesis using n2 h bu' by (simp add: nd')
      next
        case False
        then have "b \<in> set (chs ! h)" using bin by simp
        from chain_ok_bucket[OF ch[OF h(2)] this] obtain m kb where
          m: "nodes s b = Some m" "key m = Some kb" "bucket_of s kb = Ok h" by blast
        from old[OF False] m show ?thesis
          by (cases "nodes s' b") (auto simp: payload_def bu')
      qed
    qed
    ultimately show ?thesis by (auto simp: chain_ok_def)
  qed
  have chain_other: "\<And>h'. h' < length chs \<Longrightarrow> h' \<noteq> h \<Longrightarrow> chain_ok s' h' (chs ! h')"
  proof -
    fix h' assume h': "h' < length chs" "h' \<noteq> h"
    have "chain_ok s' h' (chs ! h') = chain_ok s h' (chs ! h')"
    proof (rule chain_ok_cong)
      show "table (cache s') ! h' = table (cache s) ! h'" using cs'(6) h' by simp
      show "table_size (cache s') = table_size (cache s)" using cs' by simp
      fix b assume "b \<in> set (chs ! h')"
      then have "b \<noteq> a" using anot[OF h'(1)] by auto
      from old[OF this] show "map_option (\<lambda>n. (h_next n, key n)) (nodes s' b)
          = map_option (\<lambda>n. (h_next n, key n)) (nodes s b)"
        by (cases "nodes s' b"; cases "nodes s b") (auto simp: payload_def)
    qed
    then show "chain_ok s' h' (chs ! h')" using ch[OF h'(1)] by simp
  qed
  have chains': "\<forall>h' < length (chs[h := a # chs ! h]). chain_ok s' h' (chs[h := a # chs ! h] ! h')"
    using chain_h chain_other h(2) by (auto simp: nth_list_update)
  have sc': "set (concat (chs[h := a # chs ! h])) = set (a # lru)"
  proof -
    have "set (concat (chs[h := a # chs ! h])) = (\<Union>i < length chs. set (chs[h := a # chs ! h] ! i))"
      using set_concat_nth[of "chs[h := a # chs ! h]"] by simp
    also have "\<dots> = insert a (\<Union>i < length chs. set (chs ! i))"
      using h(2) by (auto simp: nth_list_update split: if_splits)
    also have "(\<Union>i < length chs. set (chs ! i)) = set lru"
      using sc set_concat_nth[of chs] by simp
    finally show ?thesis by simp
  qed
  have tsl: "total_size s' lru = total_size s lru"
  proof (rule total_size_cong)
    fix b assume "b \<in> set lru"
    then have "b \<noteq> a" using alru by auto
    from old[OF this] show "map_option data_size (nodes s' b) = map_option data_size (nodes s b)"
      by (cases "nodes s' b"; cases "nodes s b") (auto simp: payload_def)
  qed
  have "unat (size_c (cache s) + dsize) = unat (size_c (cache s)) + unat dsize"
    using nowrap by (intro unat_add_lem[THEN iffD1]) simp
  then have sz': "unat (size_c (cache s')) = total_size s' (a # lru)"
    using sz tsl n2 cs' by (simp add: total_size_def nd')
  have cap': "size_c (cache s') \<le> capacity (cache s')" using room cs' by simp
  have abs': "cache_abs s' (a # lru) (chs[h := a # chs ! h])"
    unfolding cache_abs_def using f' b' dm' ts tlen cs' chains' sc' sz' cap' by auto
  have newn: "\<exists>n. nodes s' a = Some n \<and> key n = Some k \<and> data n = take (unat dsize) dat \<and> data_size n = dsize"
    using n2 by (simp add: nd')
  have same: "\<forall>b. b \<noteq> a \<longrightarrow> map_option (\<lambda>n. (key n, data n, data_size n)) (nodes s' b)
                        = map_option (\<lambda>n. (key n, data n, data_size n)) (nodes s b)"
  proof (intro allI impI)
    fix b assume "b \<noteq> a"
    from old[OF this] show "map_option (\<lambda>n. (key n, data n, data_size n)) (nodes s' b)
                        = map_option (\<lambda>n. (key n, data n, data_size n)) (nodes s b)"
      by (cases "nodes s' b"; cases "nodes s b") (auto simp: payload_def)
  qed
  from run h abs' newn same cs' show ?thesis by blast
qed

subsection \<open>Histories of cache operations\<close>

lemma evict_lru_any:
  assumes "cache_abs s lru chs"
  shows "\<exists>s1 lru1 chs1. evict_lru s = Some (Ok s1) \<and> cache_abs s1 lru1 chs1
      \<and> same_config s s1 \<and> survives s s1"
proof (cases lru rule: rev_cases)
  case Nil
  then have "tail (cache s) = None" using assms by (simp add: cache_abs_def linked_def)
  then have "evict_lru s = Some (Ok s)" by (simp add: evict_lru_def)
  then show ?thesis using assms survives_refl by (auto simp: same_config_def)
next
  case (snoc xs a)
  from evict_lru_spec[OF assms[unfolded snoc]] obtain s1 chs1 where
      e: "evict_lru s = Some (Ok s1)" and a1: "cache_abs s1 xs chs1"
      and k: "capacity (cache s1) = capacity (cache s)" "g_max_element_size s1 = g_max_element_size s"
         "table_size (cache s1) = table_size (cache s)"
      and sv: "nodes s1 a = None"
         "\<forall>b. b \<noteq> a \<longrightarrow> map_option (\<lambda>n. (key n, data n, data_size n)) (nodes s1 b)
                        = map_option (\<lambda>n. (key n, data n, data_size n)) (nodes s b)"
      by blast
  from e a1 k evict_lru_survives[OF sv] show ?thesis by (auto simp: same_config_def)
qed

lemma same_config_trans: "same_config s s1 \<Longrightarrow> same_config s1 s2 \<Longrightarrow> same_config s s2"
  by (simp add: same_config_def)

lemma evict_loop_partial:
  assumes "evict_loop dsize s = Some r"
  shows "\<forall>lru chs. cache_abs s lru chs \<longrightarrow>
     (\<exists>s' lru' chs'. r = Ok s' \<and> cache_abs s' lru' chs'
        \<and> \<not> capacity (cache s') < size_c (cache s') + dsize
        \<and> same_config s s' \<and> survives s s')"
proof (induction rule: evict_loop.raw_induct)
  case (1 loop dsize s r)
  show ?case
  proof (intro allI impI)
    fix lru chs assume c: "cache_abs s lru chs"
    show "\<exists>s' lru' chs'. r = Ok s' \<and> cache_abs s' lru' chs'
        \<and> \<not> capacity (cache s') < size_c (cache s') + dsize
        \<and> same_config s s' \<and> survives s s'"
    proof (cases "capacity (cache s) < size_c (cache s) + dsize")
      case False
      then have "r = Ok s" using 1(2) by simp
      then show ?thesis using c False survives_refl by (auto simp: same_config_def)
    next
      case True
      from evict_lru_any[OF c] obtain s1 lru1 chs1 where e: "evict_lru s = Some (Ok s1)"
        and c1: "cache_abs s1 lru1 chs1" and k1: "same_config s s1" and v1: "survives s s1"
        by blast
      from 1(2) True e have "loop dsize s1 = Some r" by simp
      then have "\<forall>lru chs. cache_abs s1 lru chs \<longrightarrow>
        (\<exists>s' lru' chs'. r = Ok s' \<and> cache_abs s' lru' chs'
        \<and> \<not> capacity (cache s') < size_c (cache s') + dsize
        \<and> same_config s1 s' \<and> survives s1 s')" by (rule 1(1))
      with c1 obtain s' lru' chs' where "r = Ok s'" "cache_abs s' lru' chs'"
        "\<not> capacity (cache s') < size_c (cache s') + dsize" "same_config s1 s'" "survives s1 s'"
        by blast
      then show ?thesis using same_config_trans[OF k1] survives_trans[OF v1] by blast
    qed
  qed
qed (rule assms)

lemma put_in_cache_inv:
  assumes run: "put_in_cache k dat dsize al s = Some (Ok s')"
    and c: "cache_abs s lru chs" and nw: "no_wrap s"
    and al: "g_max_element_size s < dsize \<or> malloc_ok al dsize s"
  shows "(\<exists>lru' chs'. cache_abs s' lru' chs') \<and> same_config s s'"
proof (cases "g_max_element_size s < dsize")
  case True
  then have "s' = log_message (LogSize ''WARN'' ''Item too large to cache (%zu bytes)'' dsize) s"
    using run by (simp add: put_in_cache_def)
  moreover have "same_config s (log_message (LogSize ''WARN'' ''Item too large to cache (%zu bytes)'' dsize) s)"
    by (simp add: same_config_def log_message_def)
  ultimately show ?thesis using c cache_abs_log by blast
next
  case False
  with al have mo: "malloc_ok al dsize s" by simp
  from run False obtain r where el: "evict_loop dsize s = Some r"
    by (cases "evict_loop dsize s") (auto simp: put_in_cache_def)
  from evict_loop_partial[OF el] c obtain s1 lru1 chs1 where r: "r = Ok s1"
    and c1: "cache_abs s1 lru1 chs1" and room: "\<not> capacity (cache s1) < size_c (cache s1) + dsize"
    and k1: "same_config s s1" by blast
  from run False el r have ins: "insert_node k dat dsize al s1 = Ok s'"
    by (simp add: put_in_cache_def)
  from mo el r obtain a where a: "node_block al = Some a" "nodes s1 a = None"
    and kb: "key_block al" "data_block al"
    by (auto simp: malloc_ok_def split: option.splits)
  have len: "unat dsize \<le> length dat"
    using ins a kb by (auto simp: insert_node_def split: if_splits)
  have "size_c (cache s1) \<le> capacity (cache s1)" using c1 by (simp add: cache_abs_def)
  moreover have "dsize \<le> g_max_element_size s" using False by simp
  ultimately have "unat (size_c (cache s1)) + unat dsize
      \<le> unat (capacity (cache s)) + unat (g_max_element_size s)"
    using k1 by (simp add: same_config_def word_le_nat_alt add_mono)
  then have nowrap: "unat (size_c (cache s1)) + unat dsize < 2 ^ 64"
    using nw by (simp add: no_wrap_def)
  from insert_node_spec[OF c1 a(2) a(1) kb len room nowrap, of k] ins obtain h where
    "cache_abs s' (a # lru1) (chs1[h := a # chs1 ! h])" "capacity (cache s') = capacity (cache s1)"
    "g_max_element_size s' = g_max_element_size s1" "table_size (cache s') = table_size (cache s1)"
    by auto
  then show ?thesis using k1 by (auto simp: same_config_def)
qed

lemma create_cache_abs:
  assumes "0 < tsize" "tsize < 2 ^ 31"
  shows "cache_abs (create_cache cap tsize max_el) [] (replicate (nat tsize) [])"
  using assms
  by (auto simp: cache_abs_def create_cache_def linked_def chain_ok_def total_size_def)

lemma reachable_inv:
  assumes "reachable s0 s" and "cache_inv s0" and "no_wrap s0"
  shows "cache_inv s \<and> same_config s0 s"
  using assms
proof (induction rule: reachable.induct)
  case reach_start
  then show ?case by (simp add: same_config_def)
next
  case (reach_get s k r s')
  then obtain lru chs where c: "cache_abs s lru chs" and k: "same_config s0 s"
    by (auto simp: cache_inv_def)
  from get_from_cache_spec[OF c, of k] obtain h where
    g: "case first_with_key s k (chs ! h) of
        None \<Rightarrow> get_from_cache k s =
                 Some (Ok (None, log_message (Log ''INFO'' ''Cache MISS for request key.'') s))
      | Some a \<Rightarrow> a \<in> set lru \<and>
          (\<exists>s'. get_from_cache k s = Some (Ok (Some a, s'))
              \<and> cache_abs s' (a # remove1 a lru) chs
              \<and> relinked s (s'\<lparr>log_lines := log_lines s\<rparr>))" by blast
  have "cache_inv s' \<and> same_config s s'"
  proof (cases "first_with_key s k (chs ! h)")
    case None
    with g reach_get.hyps(2) have "s' = log_message (Log ''INFO'' ''Cache MISS for request key.'') s"
      by simp
    moreover have "same_config s (log_message (Log ''INFO'' ''Cache MISS for request key.'') s)"
      by (simp add: same_config_def log_message_def)
    ultimately show ?thesis using c cache_abs_log unfolding cache_inv_def by blast
  next
    case (Some a)
    with g reach_get.hyps(2) have "cache_abs s' (a # remove1 a lru) chs"
      and "relinked s (s'\<lparr>log_lines := log_lines s\<rparr>)" by auto
    then show ?thesis unfolding cache_inv_def by (auto simp: same_config_def relinked_def)
  qed
  then show ?case using k same_config_trans by blast
next
  case (reach_put s dsize al k dat s')
  then obtain lru chs where c: "cache_abs s lru chs" and k: "same_config s0 s"
    by (auto simp: cache_inv_def)
  have nw: "no_wrap s" using reach_put.prems(2) k by (simp add: no_wrap_def same_config_def)
  from put_in_cache_inv[OF reach_put.hyps(3) c nw reach_put.hyps(2)]
  show ?case using k same_config_trans by (auto simp: cache_inv_def)
qed

lemma distinct_concat_nth:
  assumes "\<forall>i < length xss. distinct (xss ! i)"
    and "\<forall>i < length xss. \<forall>j < length xss. i \<noteq> j \<longrightarrow> set (xss ! i) \<inter> set (xss ! j) = {}"
  shows "distinct (concat xss)"
  using assms
proof (induction xss)
  case Nil
  then show ?case by simp
next
  case (Cons xs xss)
  have d0: "distinct xs" using Cons.prems(1) by auto
  have "\<forall>i < length xss. distinct (xss ! i)"
  proof (intro allI impI)
    fix i assume "i < length xss"
    then have "distinct ((xs # xss) ! Suc i)" using Cons.prems(1) by (metis Suc_less_eq length_Cons)
    then show "distinct (xss ! i)" by simp
  qed
  moreover have "\<forall>i < length xss. \<forall>j < length xss. i \<noteq> j \<longrightarrow> set (xss ! i) \<inter> set (xss ! j) = {}"
  proof (intro allI impI)
    fix i j assume ij: "i < length xss" "j < length xss" "i \<noteq> j"
    then have "Suc i < length (xs # xss)" "Suc j < length (xs # xss)" "Suc i \<noteq> Suc j" by simp_all
    with Cons.prems(2) have "set ((xs # xss) ! Suc i) \<inter> set ((xs # xss) ! Suc j) = {}" by blast
    then show "set (xss ! i) \<inter> set (xss ! j) = {}" by simp
  qed
  ultimately have dr: "distinct (concat xss)" by (rule Cons.IH)
  have "set xs \<inter> set (concat xss) = {}"
  proof -
    have "set xs \<inter> set ys = {}" if "ys \<in> set xss" for ys
    proof -
      from that obtain j where j: "j < length xss" "ys = xss ! j" by (auto simp: in_set_conv_nth)
      then have "0 < length (xs # xss)" "Suc j < length (xs # xss)" "0 \<noteq> Suc j" by simp_all
      with Cons.prems(2) have "set ((xs # xss) ! 0) \<inter> set ((xs # xss) ! Suc j) = {}" by blast
      then show ?thesis using j by simp
    qed
    then show ?thesis by auto
  qed
  with d0 dr show ?case by simp
qed

lemma cache_abs_distinct:
  assumes "cache_abs s lru chs"
  shows "distinct lru \<and> distinct (concat chs)"
proof -
  from assms have f: "linked next_node (nodes s) (head (cache s)) lru"
    and ch: "\<And>h. h < length chs \<Longrightarrow> chain_ok s h (chs ! h)"
    by (simp_all add: cache_abs_def)
  have "\<forall>i < length chs. distinct (chs ! i)"
    using ch by (simp add: chain_ok_def linked_def)
  moreover have "\<forall>i < length chs. \<forall>j < length chs. i \<noteq> j \<longrightarrow> set (chs ! i) \<inter> set (chs ! j) = {}"
  proof (intro allI impI)
    fix i j assume ij: "i < length chs" "j < length chs" "i \<noteq> j"
    show "set (chs ! i) \<inter> set (chs ! j) = {}"
    proof (rule ccontr)
      assume "set (chs ! i) \<inter> set (chs ! j) \<noteq> {}"
      then obtain a where "a \<in> set (chs ! i)" "a \<in> set (chs ! j)" by blast
      from chains_disjoint[OF ch[OF ij(1)] ch[OF ij(2)] this] ij(3) show False by simp
    qed
  qed
  ultimately have "distinct (concat chs)" by (rule distinct_concat_nth)
  then show ?thesis using f by (simp add: linked_def)
qed

text \<open>
  Claim C5. Take a cache made by \<^verbatim>\<open>create_cache\<close> with a table of at least one bucket,
  and a capacity and an element limit whose sum fits \<^verbatim>\<open>size_t\<close>. After every sequence of
  \<^verbatim>\<open>get_from_cache\<close> and \<^verbatim>\<open>put_in_cache\<close> calls whose allocations succeeded, the
  resident entries are the nodes of the recency list \<open>lru\<close>, each once; the hash chains
  \<open>chs\<close> hold the same entries, each once; the sum of their \<^verbatim>\<open>data_size\<close> is
  \<^verbatim>\<open>cache->size\<close>, and it is at most the capacity the cache was created with.
\<close>

theorem cache_invariant:
  assumes "0 < tsize" and "tsize < 2 ^ 31" and "unat cap + unat max_el < 2 ^ 64"
    and "reachable (create_cache cap tsize max_el) s"
  shows "\<exists>lru chs. cache_abs s lru chs \<and> dom (nodes s) = set lru \<and> distinct lru
      \<and> set (concat chs) = set lru \<and> distinct (concat chs)
      \<and> unat (size_c (cache s)) = total_size s lru \<and> size_c (cache s) \<le> cap"
proof -
  let ?s0 = "create_cache cap tsize max_el"
  have "cache_inv ?s0" using create_cache_abs[OF assms(1,2)] unfolding cache_inv_def by blast
  moreover have "no_wrap ?s0" using assms(3) by (simp add: no_wrap_def create_cache_def)
  ultimately have "cache_inv s \<and> same_config ?s0 s" using reachable_inv[OF assms(4)] by blast
  then obtain lru chs where c: "cache_abs s lru chs" and k: "capacity (cache s) = cap"
    by (auto simp: cache_inv_def same_config_def create_cache_def)
  from c have "dom (nodes s) = set lru" "set (concat chs) = set lru"
    "unat (size_c (cache s)) = total_size s lru" "size_c (cache s) \<le> capacity (cache s)"
    by (simp_all add: cache_abs_def)
  with cache_abs_distinct[OF c] c k show ?thesis by blast
qed

theorem cache_invariant_witness:
  "\<exists>s. put_in_cache ''k'' ''abc'' 3 \<lparr>node_block = Some 7, key_block = True, data_block = True\<rparr>
          (create_cache 10 4 6) = Some (Ok s)
     \<and> size_c (cache s) = 3
     \<and> (\<exists>lru chs. cache_abs s lru chs \<and> dom (nodes s) = set lru \<and> distinct lru
      \<and> set (concat chs) = set lru \<and> distinct (concat chs)
      \<and> unat (size_c (cache s)) = total_size s lru \<and> size_c (cache s) \<le> 10)"
proof -
  let ?al = "\<lparr>node_block = Some 7, key_block = True, data_block = True\<rparr>"
  let ?s0 = "create_cache 10 4 6"
  have e: "evict_loop 3 ?s0 = Some (Ok ?s0)"
    by (simp add: evict_loop.simps create_cache_def)
  have "\<exists>s. put_in_cache ''k'' ''abc'' 3 ?al ?s0 = Some (Ok s) \<and> size_c (cache s) = 3"
    unfolding put_in_cache_def e
    by (simp add: create_cache_def insert_node_def attach_to_front_def load_def put_node_def
        seq_def bucket_of_def slot_def set_slot_def log_message_def Let_def hash_def
        char_to_ulong_def)
  then obtain s where p: "put_in_cache ''k'' ''abc'' 3 ?al ?s0 = Some (Ok s)"
    and z: "size_c (cache s) = 3" by blast
  have m: "g_max_element_size ?s0 < 3 \<or> malloc_ok ?al 3 ?s0"
    by (simp add: malloc_ok_def e) (simp add: create_cache_def)
  have "reachable ?s0 s" by (rule reach_put[OF reach_start m p])
  from cache_invariant[OF _ _ _ this] p z show ?thesis by simp
qed

subsection \<open>The eviction loop\<close>

lemma evict_iters_inv:
  assumes "rtranclp (evict_iter dsize) s s1" and "cache_inv s"
  shows "cache_inv s1 \<and> capacity (cache s1) = capacity (cache s)"
  using assms
proof (induction rule: rtranclp_induct)
  case base
  then show ?case by simp
next
  case (step y z)
  then obtain lru chs where c: "cache_abs y lru chs"
    and k: "capacity (cache y) = capacity (cache s)" by (auto simp: cache_inv_def)
  from step.hyps(2) have e: "evict_lru y = Some (Ok z)" by (simp add: evict_iter_def)
  from evict_lru_any[OF c] e obtain lru1 chs1 where "cache_abs z lru1 chs1"
    "same_config y z" by auto
  then show ?case using k by (auto simp: cache_inv_def same_config_def)
qed

lemma evict_step_removes_tail:
  assumes c: "cache_abs s lru chs"
    and d: "dsize \<le> capacity (cache s)"
    and full: "capacity (cache s) < size_c (cache s) + dsize"
  shows "\<exists>a n s2. tail (cache s) = Some a \<and> nodes s a = Some n
      \<and> evict_lru s = Some (Ok s2)
      \<and> finite (dom (nodes s)) \<and> dom (nodes s2) = dom (nodes s) - {a}
      \<and> size_c (cache s2) = size_c (cache s) - data_size n
      \<and> data_size n \<le> size_c (cache s)
      \<and> (data_size n \<noteq> 0 \<longrightarrow> size_c (cache s2) < size_c (cache s))"
proof -
  have "lru \<noteq> []"
  proof
    assume "lru = []"
    with c have "size_c (cache s) = 0" by (simp add: cache_abs_empty_size)
    with full d show False by simp
  qed
  then obtain xs a where l: "lru = xs @ [a]" by (cases lru rule: rev_cases) auto
  from c have "linked prev_node (nodes s) (tail (cache s)) (rev lru)" by (simp add: cache_abs_def)
  then have t: "tail (cache s) = Some a" unfolding l by (simp add: linked_def)
  from c have fin: "finite (dom (nodes s))" by (simp add: cache_abs_def)
  from evict_lru_spec[OF c[unfolded l]] obtain s2 m where e: "evict_lru s = Some (Ok s2)"
    and m: "nodes s a = Some m" and z: "size_c (cache s2) = size_c (cache s) - data_size m"
    and le: "data_size m \<le> size_c (cache s)" and gone: "nodes s2 a = None"
    and old: "\<forall>b. b \<noteq> a \<longrightarrow> map_option (\<lambda>n. (key n, data n, data_size n)) (nodes s2 b)
                        = map_option (\<lambda>n. (key n, data n, data_size n)) (nodes s b)"
    by blast
  have dm: "dom (nodes s2) = dom (nodes s) - {a}"
  proof (rule set_eqI)
    fix b
    show "b \<in> dom (nodes s2) \<longleftrightarrow> b \<in> dom (nodes s) - {a}"
    proof (cases "b = a")
      case True
      with gone show ?thesis by auto
    next
      case False
      with old have "map_option (\<lambda>n. (key n, data n, data_size n)) (nodes s2 b)
          = map_option (\<lambda>n. (key n, data n, data_size n)) (nodes s b)" by blast
      then have "(map_option (\<lambda>n. (key n, data n, data_size n)) (nodes s2 b) = None)
          = (map_option (\<lambda>n. (key n, data n, data_size n)) (nodes s b) = None)" by (rule arg_cong)
      then have "(nodes s2 b = None) = (nodes s b = None)" by (simp only: map_option_is_None)
      with False show ?thesis by (simp add: domIff)
    qed
  qed
  have strict: "size_c (cache s2) < size_c (cache s)" if nz: "data_size m \<noteq> 0"
  proof -
    from nz have "0 < unat (data_size m)" by (simp add: unat_gt_0)
    moreover have "unat (size_c (cache s) - data_size m)
        = unat (size_c (cache s)) - unat (data_size m)"
      using le by (rule unat_sub)
    moreover have "unat (data_size m) \<le> unat (size_c (cache s))"
      using le by (simp add: word_le_nat_alt)
    ultimately show ?thesis unfolding z word_less_nat_alt by linarith
  qed
  from t m e fin dm z le strict show ?thesis by blast
qed

text \<open>
  Claim C9, as stated, fails where it says that every iteration strictly decreases the
  size: \<^verbatim>\<open>put_in_cache\<close> accepts a \<^verbatim>\<open>data_size\<close> of 0, and the eviction of such an entry
  leaves \<^verbatim>\<open>cache->size\<close> as it is. In a cache of capacity 4, after a store of 0 bytes for
  \<^verbatim>\<open>k\<close> and of 4 bytes for \<^verbatim>\<open>j\<close>, a store of 1 byte enters the eviction loop on a
  cache whose tail is the entry of \<^verbatim>\<open>k\<close>, and \<^verbatim>\<open>evict_lru\<close> returns with the same size.
\<close>

theorem zero_byte_eviction_counterexample:
  "case put_in_cache ''k'' [] 0 \<lparr>node_block = Some 7, key_block = True, data_block = True\<rparr>
          (create_cache 4 4 4) of
     Some (Ok s1) \<Rightarrow>
       (case put_in_cache ''j'' ''wxyz'' 4
               \<lparr>node_block = Some 9, key_block = True, data_block = True\<rparr> s1 of
          Some (Ok s2) \<Rightarrow>
            (1 :: size_t) \<le> capacity (cache s2) \<and>
            capacity (cache s2) < size_c (cache s2) + 1 \<and>
            tail (cache s2) = Some 7 \<and>
            size_c (cache s2) = 4 \<and>
            (case evict_lru s2 of
               Some (Ok s3) \<Rightarrow> size_c (cache s3) = 4 \<and> nodes s3 7 = None
             | _ \<Rightarrow> False)
        | _ \<Rightarrow> False)
   | _ \<Rightarrow> False"
  by (simp add: create_cache_def insert_node_def attach_to_front_def detach_node_def load_def
      put_node_def seq_def bucket_of_def slot_def set_slot_def log_message_def Let_def hash_def
      char_to_ulong_def put_in_cache_def evict_lru_def evict_loop.simps unlink_loop.simps)

text \<open>
  Claim C9, amended. In a cache state that satisfies the invariant, for a \<open>dsize\<close> of at
  most the capacity: \<^verbatim>\<open>put_in_cache\<close> returns, and its eviction loop ends in a state where
  the item fits. Every iteration of the loop starts on a cache with a tail node; it removes
  this entry, so the finite number of resident entries goes down by one, and it lowers
  \<^verbatim>\<open>cache->size\<close> by the entry's \<^verbatim>\<open>data_size\<close>: strictly when the entry has at least
  one byte.
\<close>

theorem evict_loop_terminates:
  assumes "cache_inv s" and "dsize \<le> capacity (cache s)"
  shows "put_in_cache k dat dsize al s \<noteq> None
    \<and> (\<exists>s'. evict_loop dsize s = Some (Ok s')
           \<and> \<not> capacity (cache s') < size_c (cache s') + dsize)
    \<and> (\<forall>s1. rtranclp (evict_iter dsize) s s1 \<and> capacity (cache s1) < size_c (cache s1) + dsize
          \<longrightarrow> (\<exists>a n s2. tail (cache s1) = Some a \<and> nodes s1 a = Some n
                \<and> evict_lru s1 = Some (Ok s2)
                \<and> finite (dom (nodes s1)) \<and> dom (nodes s2) = dom (nodes s1) - {a}
                \<and> size_c (cache s2) = size_c (cache s1) - data_size n
                \<and> data_size n \<le> size_c (cache s1)
                \<and> (data_size n \<noteq> 0 \<longrightarrow> size_c (cache s2) < size_c (cache s1))))"
proof -
  from assms(1) obtain lru chs where c: "cache_abs s lru chs" by (auto simp: cache_inv_def)
  from evict_loop_spec[OF c assms(2)] obtain s' where
    e: "evict_loop dsize s = Some (Ok s')" "\<not> capacity (cache s') < size_c (cache s') + dsize"
    by blast
  then have p: "put_in_cache k dat dsize al s \<noteq> None" by (simp add: put_in_cache_def)
  have "\<exists>a n s2. tail (cache s1) = Some a \<and> nodes s1 a = Some n
                \<and> evict_lru s1 = Some (Ok s2)
                \<and> finite (dom (nodes s1)) \<and> dom (nodes s2) = dom (nodes s1) - {a}
                \<and> size_c (cache s2) = size_c (cache s1) - data_size n
                \<and> data_size n \<le> size_c (cache s1)
                \<and> (data_size n \<noteq> 0 \<longrightarrow> size_c (cache s2) < size_c (cache s1))"
    if r: "rtranclp (evict_iter dsize) s s1" and f: "capacity (cache s1) < size_c (cache s1) + dsize"
    for s1
  proof -
    from evict_iters_inv[OF r assms(1)] obtain lru1 chs1 where "cache_abs s1 lru1 chs1"
      "dsize \<le> capacity (cache s1)" using assms(2)
      by (auto simp: cache_inv_def)
    then show ?thesis using f by (rule evict_step_removes_tail)
  qed
  with p e show ?thesis by blast
qed

theorem evict_loop_terminates_witness:
  "\<exists>s. put_in_cache ''k'' ''abcdefgh'' 8 \<lparr>node_block = Some 7, key_block = True, data_block = True\<rparr>
          (create_cache 10 4 10) = Some (Ok s)
     \<and> capacity (cache s) < size_c (cache s) + 5
     \<and> put_in_cache ''j'' ''vwxyz'' 5 \<lparr>node_block = Some 9, key_block = True, data_block = True\<rparr> s
          \<noteq> None
     \<and> (\<exists>s'. evict_loop 5 s = Some (Ok s') \<and> \<not> capacity (cache s') < size_c (cache s') + 5)
     \<and> tail (cache s) = Some 7
     \<and> (\<exists>s2. evict_lru s = Some (Ok s2) \<and> dom (nodes s2) = dom (nodes s) - {7}
            \<and> size_c (cache s2) < size_c (cache s))"
proof -
  let ?al = "\<lparr>node_block = Some 7, key_block = True, data_block = True\<rparr>"
  let ?s0 = "create_cache 10 4 10"
  have e: "evict_loop 8 ?s0 = Some (Ok ?s0)"
    by (simp add: evict_loop.simps create_cache_def)
  have "\<exists>s. put_in_cache ''k'' ''abcdefgh'' 8 ?al ?s0 = Some (Ok s) \<and> size_c (cache s) = 8
      \<and> capacity (cache s) = 10 \<and> tail (cache s) = Some 7
      \<and> map_option data_size (nodes s 7) = Some 8"
    unfolding put_in_cache_def e
    by (simp add: create_cache_def insert_node_def attach_to_front_def load_def put_node_def
        seq_def bucket_of_def slot_def set_slot_def log_message_def Let_def hash_def
        char_to_ulong_def)
  then obtain s where p: "put_in_cache ''k'' ''abcdefgh'' 8 ?al ?s0 = Some (Ok s)"
    and z: "size_c (cache s) = 8" and k: "capacity (cache s) = 10"
    and t: "tail (cache s) = Some 7" and ds: "map_option data_size (nodes s 7) = Some 8"
    by blast
  have m: "g_max_element_size ?s0 < 8 \<or> malloc_ok ?al 8 ?s0"
    by (simp add: malloc_ok_def e) (simp add: create_cache_def)
  have c0: "cache_abs ?s0 [] (replicate (nat 4) [])" by (rule create_cache_abs) simp_all
  then have i0: "cache_inv ?s0" unfolding cache_inv_def by blast
  have w0: "no_wrap ?s0" by (simp add: no_wrap_def create_cache_def)
  have "reachable ?s0 s" by (rule reach_put[OF reach_start m p])
  from reachable_inv[OF this i0 w0] have i: "cache_inv s" by simp
  have d: "(5 :: size_t) \<le> capacity (cache s)" unfolding k by simp
  have f: "capacity (cache s) < size_c (cache s) + 5" unfolding k z by simp
  have r: "rtranclp (evict_iter 5) s s" by simp
  from evict_loop_terminates[OF i d, of "''j''" "''vwxyz''"
      "\<lparr>node_block = Some 9, key_block = True, data_block = True\<rparr>"] r f
  obtain s' a n s2 where
    pn: "put_in_cache ''j'' ''vwxyz'' 5 \<lparr>node_block = Some 9, key_block = True, data_block = True\<rparr> s
          \<noteq> None"
    and el: "evict_loop 5 s = Some (Ok s')" "\<not> capacity (cache s') < size_c (cache s') + 5"
    and st: "tail (cache s) = Some a" "nodes s a = Some n" "evict_lru s = Some (Ok s2)"
      "dom (nodes s2) = dom (nodes s) - {a}"
      "data_size n \<noteq> 0 \<longrightarrow> size_c (cache s2) < size_c (cache s)"
    by blast
  from st(1) t have a: "a = 7" by simp
  with st(2) ds have "data_size n = 8" by simp
  with st(5) have "size_c (cache s2) < size_c (cache s)" by simp
  with p f pn el t st(3,4) a show ?thesis by blast
qed

subsection \<open>Keys\<close>









lemmas cache_eval = create_cache_def insert_node_def attach_to_front_def detach_node_def load_def
  put_node_def seq_def bucket_of_def slot_def set_slot_def log_message_def Let_def hash_def
  char_to_ulong_def put_in_cache_def get_from_cache_def evict_lru_def
  evict_loop.simps find_node.simps unlink_loop.simps




section \<open>Properties of the fetch path\<close>

lemma recv_loop_take:
  assumes "0 < seg"
  shows "recv_loop seg cap pending filled sent =
     (filled @ take (cap - length filled) pending, sent @ take (cap - length filled) pending)"
  using assms
proof (induction seg cap pending filled sent rule: recv_loop.induct)
  case (1 seg cap pending filled sent)
  let ?n = "recv seg (cap - length filled) pending"
  show ?case
  proof (cases "0 < ?n")
    case False
    then have "cap - length filled = 0 \<or> pending = []" using 1(2) by (auto simp: recv_def)
    then have "take (cap - length filled) pending = []" by auto
    then show ?thesis using False by (subst recv_loop.simps) simp
  next
    case True
    have le: "?n \<le> cap - length filled" "?n \<le> length pending" by (simp_all add: recv_def)
    have st: "recv_loop seg cap pending filled sent =
        recv_loop seg cap (drop ?n pending) (filled @ take ?n pending) (sent @ take ?n pending)"
      using True by (subst recv_loop.simps) simp
    have ih: "recv_loop seg cap (drop ?n pending) (filled @ take ?n pending) (sent @ take ?n pending)
       = ((filled @ take ?n pending)
           @ take (cap - length (filled @ take ?n pending)) (drop ?n pending),
         (sent @ take ?n pending)
           @ take (cap - length (filled @ take ?n pending)) (drop ?n pending))"
      using 1(1)[OF True 1(2)] .
    have ln: "cap - length (filled @ take ?n pending) = (cap - length filled) - ?n"
      using le by simp
    have tk: "take ?n pending @ take ((cap - length filled) - ?n) (drop ?n pending)
        = take (cap - length filled) pending"
      using le by (metis le_add_diff_inverse take_add)
    show ?thesis unfolding st ih ln append_assoc tk by (rule refl)
  qed
qed

lemma oversize_fetch:
  assumes "host req = Some h" and "path req = Some p" and "new_request req = Some q"
    and "key_ok net" and "resolves net" and "connects net" and "buffer_ok net"
    and "0 < segment net"
    and "get_from_cache (h @ p) s = Some (Ok (None, s1))"
    and "unat (g_max_element_size s1) < length (response net)"
    and "g_max_element_size s1 \<noteq> 0"
  shows "handle_http_request req net s =
     (case put_in_cache (h @ p) (take (unat (g_max_element_size s1)) (response net))
             (g_max_element_size s1) (put_alloc net)
             (log_message (LogStr ''INFO'' ''Forwarding new HTTP request for %s'' h) s1) of
        None \<Rightarrow> None
      | Some Fault \<Rightarrow> Some Fault
      | Some (Ok s3) \<Rightarrow> Some (Ok (take (unat (g_max_element_size s1)) (response net), q, s3)))"
proof -
  let ?g = "unat (g_max_element_size s1)"
  let ?s2 = "log_message (LogStr ''INFO'' ''Forwarding new HTTP request for %s'' h) s1"
  have g2: "g_max_element_size ?s2 = g_max_element_size s1" by (simp add: log_message_def)
  have rl: "recv_loop (segment net) ?g (response net) [] [] =
      (take ?g (response net), take ?g (response net))"
    using recv_loop_take[OF assms(8), of ?g "response net" "[]" "[]"] by simp
  have len: "length (take ?g (response net)) = ?g" using assms(10) by simp
  have pos: "0 < ?g" using assms(11) by (simp add: unat_gt_0)
  have w: "(of_nat ?g :: size_t) = g_max_element_size s1" by simp
  show ?thesis
    unfolding handle_http_request_def
    by (simp only: assms(1-7,9) option.case outcome.case prod.case if_False if_True not_True_eq_False
        Let_def g2 rl len pos w)
qed

text \<open>
  Claim C1 at its own example: \<^verbatim>\<open>element_size_mb=1\<close>, the cache of the default 200 MB is
  empty, and the origin answers \<^verbatim>\<open>GET http://example.com/a HTTP/1.0\<close> with 2 MB. The
  client is sent the first 1048576 bytes only, and these bytes are stored under the key of
  the request: \<^verbatim>\<open>put_in_cache\<close> is called with the size 1048576, which its guard
  \<^verbatim>\<open>data_size > g_max_element_size\<close> lets through.
\<close>

theorem oversize_response_truncated_and_cached:
  "case handle_http_request
          \<lparr>method_r = Some ''GET'', protocol = None, host = Some ''example.com'',
           port = None, path = Some ''/a'', version = Some ''HTTP/1.0'',
           buf = Some ''GET http://example.com/a HTTP/1.0''\<rparr>
          \<lparr>key_ok = True, resolves = True, connects = True,
           response = replicate 2097152 CHR ''x'', segment = 65536, buffer_ok = True,
           put_alloc = \<lparr>node_block = Some 1, key_block = True, data_block = True\<rparr>\<rparr>
          (create_cache 209715200 1024 1048576) of
     Some (Ok (to_client, to_origin, s)) \<Rightarrow>
       to_client = replicate 1048576 CHR ''x'' \<and>
       map_option key (nodes s 1) = Some (Some ''example.com/a'') \<and>
       map_option data (nodes s 1) = Some (replicate 1048576 CHR ''x'') \<and>
       map_option data_size (nodes s 1) = Some 1048576 \<and>
       size_c (cache s) = 1048576
   | _ \<Rightarrow> False"
proof -
  let ?req = "\<lparr>method_r = Some ''GET'', protocol = None, host = Some ''example.com'',
           port = None, path = Some ''/a'', version = Some ''HTTP/1.0'',
           buf = Some ''GET http://example.com/a HTTP/1.0''\<rparr>"
  let ?net = "\<lparr>key_ok = True, resolves = True, connects = True,
           response = replicate 2097152 CHR ''x'', segment = 65536, buffer_ok = True,
           put_alloc = \<lparr>node_block = Some 1, key_block = True, data_block = True\<rparr>\<rparr>"
  let ?s0 = "create_cache 209715200 1024 1048576"
  let ?s1 = "log_message (Log ''INFO'' ''Cache MISS for request key.'') ?s0"
  have q: "new_request ?req \<noteq> None" by (simp add: new_request_def)
  then obtain q where q: "new_request ?req = Some q" by blast
  have g: "get_from_cache (''example.com'' @ ''/a'') ?s0 = Some (Ok (None, ?s1))"
    by (simp add: cache_eval)
  have m: "g_max_element_size ?s1 = 1048576" by (simp add: log_message_def create_cache_def)
  have h: "handle_http_request ?req ?net ?s0 =
     (case put_in_cache (''example.com'' @ ''/a'') (take (unat (g_max_element_size ?s1)) (response ?net))
             (g_max_element_size ?s1) (put_alloc ?net)
             (log_message (LogStr ''INFO'' ''Forwarding new HTTP request for %s'' ''example.com'') ?s1) of
        None \<Rightarrow> None
      | Some Fault \<Rightarrow> Some Fault
      | Some (Ok s3) \<Rightarrow> Some (Ok (take (unat (g_max_element_size ?s1)) (response ?net), q, s3)))"
    by (rule oversize_fetch[OF _ _ q _ _ _ _ _ g]) (simp_all add: m)
  show ?thesis unfolding h m by (simp add: cache_eval)
qed

text \<open>
  Claim C3 fails on the code: \<^verbatim>\<open>get_from_cache\<close> returns the node itself, and the caller
  reads \<^verbatim>\<open>cached_item->data\<close> after the lock is released. With a cache of 1 MB that
  holds 700000 bytes for \<^verbatim>\<open>a.com/\<close>: one thread looks \<^verbatim>\<open>a.com/\<close> up and gets node 1;
  another thread stores 700000 bytes for \<^verbatim>\<open>b.com/\<close>, which evicts and frees node 1; the
  \<^verbatim>\<open>send\<close> of the first thread then reads freed memory.
\<close>

theorem cached_item_freed_before_send:
  "case put_in_cache ''a.com/'' (replicate 700000 CHR ''x'') 700000
          \<lparr>node_block = Some 1, key_block = True, data_block = True\<rparr>
          (create_cache 1048576 1024 1048576) of
     Some (Ok s1) \<Rightarrow>
       (case get_from_cache ''a.com/'' s1 of
          Some (Ok (Some cached_item, s2)) \<Rightarrow>
            cached_item = 1 \<and>
            send_cached_item cached_item s2 = Ok (replicate 700000 CHR ''x'') \<and>
            (case put_in_cache ''b.com/'' (replicate 700000 CHR ''y'') 700000
                    \<lparr>node_block = Some 2, key_block = True, data_block = True\<rparr> s2 of
               Some (Ok s3) \<Rightarrow> nodes s3 1 = None \<and> send_cached_item cached_item s3 = Fault
             | _ \<Rightarrow> False)
        | _ \<Rightarrow> False)
   | _ \<Rightarrow> False"
  by (simp add: cache_eval send_cached_item_def)

text \<open>
  Claim C6 fails on the code: \<^verbatim>\<open>put_in_cache\<close> never tests what \<^verbatim>\<open>malloc\<close> and
  \<^verbatim>\<open>strdup\<close> return. When the node or the data block is NULL the function writes
  through the null pointer; when \<^verbatim>\<open>strdup\<close> returns NULL the entry is inserted with a
  NULL key, and the next lookup in its bucket passes NULL to \<^verbatim>\<open>strcmp\<close>.
\<close>

theorem put_in_cache_allocation_failure:
  "put_in_cache ''example.com/a'' (replicate 1000 CHR ''x'') 1000
       \<lparr>node_block = None, key_block = True, data_block = True\<rparr>
       (create_cache 209715200 1024 10485760) = Some Fault
   \<and> put_in_cache ''example.com/a'' (replicate 1000 CHR ''x'') 1000
       \<lparr>node_block = Some 1, key_block = True, data_block = False\<rparr>
       (create_cache 209715200 1024 10485760) = Some Fault
   \<and> (case put_in_cache ''example.com/a'' (replicate 1000 CHR ''x'') 1000
             \<lparr>node_block = Some 1, key_block = False, data_block = True\<rparr>
             (create_cache 209715200 1024 10485760) of
        Some (Ok s) \<Rightarrow> map_option key (nodes s 1) = Some None \<and> size_c (cache s) = 1000
                        \<and> get_from_cache ''example.com/a'' s = Some Fault
      | _ \<Rightarrow> False)"
  by (simp add: cache_eval)

end
